theory Spec2Isabelle
  imports Main "HOL-Library.Multiset"
begin

section \<open>Shared services: logger and event bus\<close>

text \<open>
  The logger and the event bus are process-wide singletons. The model records the calls made
  to them, in order: \<open>logged\<close> is the sequence of \<open>logger.warn/info/error\<close> calls
  (level, source, message) and \<open>emitted\<close> is the sequence of events handed to
  \<open>eventBus.emitEvent\<close>. The logger's level threshold, its 10000-entry cap and the bus's
  1000-entry history cap concern what is retained, not what is called, and are not part of
  the model; neither are the handlers that subscribers attach to the bus. Log messages are
  given without the emoji some of them start with.
\<close>

datatype LogLevel = Debug | Info | Warn | Error

datatype SuperCodeEvent =
    AgentStartedEv string
  | AgentStoppedEv string
  | AgentErrorEv string string
  | WorkflowStartedEv string string
  | WorkflowCompletedEv string string
  | WorkflowFailedEv string string string

record Sys =
  logged :: "(LogLevel \<times> string \<times> string) list"
  emitted :: "SuperCodeEvent list"

definition logger_info :: "string \<Rightarrow> string \<Rightarrow> Sys \<Rightarrow> Sys" where
  "logger_info src msg sy = sy\<lparr>logged := logged sy @ [(Info, src, msg)]\<rparr>"

definition logger_warn :: "string \<Rightarrow> string \<Rightarrow> Sys \<Rightarrow> Sys" where
  "logger_warn src msg sy = sy\<lparr>logged := logged sy @ [(Warn, src, msg)]\<rparr>"

definition logger_error :: "string \<Rightarrow> string \<Rightarrow> Sys \<Rightarrow> Sys" where
  "logger_error src msg sy = sy\<lparr>logged := logged sy @ [(Error, src, msg)]\<rparr>"

definition emitEvent :: "SuperCodeEvent \<Rightarrow> Sys \<Rightarrow> Sys" where
  "emitEvent ev sy = sy\<lparr>emitted := emitted sy @ [ev]\<rparr>"

text \<open>Decimal rendering of the integers that appear inside log messages.\<close>

function showNat :: "nat \<Rightarrow> string" where
  "showNat n =
     (if n < 10 then [''0123456789'' ! n]
      else showNat (n div 10) @ [''0123456789'' ! (n mod 10)])"
  by pat_completeness auto
termination
  by (relation "measure id") auto

declare showNat.simps [simp del]

definition showInt :: "int \<Rightarrow> string" where
  "showInt i = (if i < 0 then CHR ''-'' # showNat (nat (- i)) else showNat (nat i))"

section \<open>Agent runtime (class BaseAgent)\<close>

datatype AgentStatus = AgentIdle | AgentRunning | AgentError | AgentStopped

text \<open>
  An agent object. \<open>sub\<close> stands for the fields a subclass adds; the abstract methods
  \<open>initialize\<close> and \<open>shutdown\<close> are functions on those fields that return the message
  of the error they throw, if any, together with the fields as they left them. The
  \<open>config\<close> and \<open>metrics\<close> fields are neither read nor written by \<open>start\<close> and
  \<open>stop\<close> and are left out. Times are natural numbers; \<open>now\<close> is the value of
  \<open>new Date()\<close> at the call.
\<close>

record 's BaseAgent =
  agent_id :: string
  agent_name :: string
  agent_status :: AgentStatus
  startTime :: "nat option"
  sub :: 's
  initialize :: "'s \<Rightarrow> string option \<times> 's"
  shutdown :: "'s \<Rightarrow> string option \<times> 's"

text \<open>
  \<open>start\<close> and \<open>stop\<close> return the message of the error that escapes to the caller
  (\<open>None\<close> when the call returns normally), the agent and the shared services.
\<close>

definition start :: "nat \<Rightarrow> 's BaseAgent \<Rightarrow> Sys \<Rightarrow> string option \<times> 's BaseAgent \<times> Sys" where
  "start now a sy =
     (if agent_status a = AgentRunning
      then (None, a, logger_warn (agent_name a) ''Agent is already running'' sy)
      else
        let sy1 = logger_info (agent_name a) ''Starting agent...'' sy;
            a1 = a\<lparr>agent_status := AgentRunning, startTime := Some now\<rparr>
        in (case initialize a1 (sub a1) of
              (None, s') \<Rightarrow>
                (None, a1\<lparr>sub := s'\<rparr>,
                 logger_info (agent_name a) ''Agent started successfully''
                   (emitEvent (AgentStartedEv (agent_id a)) sy1))
            | (Some msg, s') \<Rightarrow>
                (Some msg, a1\<lparr>sub := s', agent_status := AgentError\<rparr>,
                 emitEvent (AgentErrorEv (agent_id a) msg)
                   (logger_error (agent_name a) (''Failed to start agent: '' @ msg) sy1))))"

definition stop :: "'s BaseAgent \<Rightarrow> Sys \<Rightarrow> string option \<times> 's BaseAgent \<times> Sys" where
  "stop a sy =
     (if agent_status a = AgentStopped
      then (None, a, logger_warn (agent_name a) ''Agent is already stopped'' sy)
      else
        let sy1 = logger_info (agent_name a) ''Stopping agent...'' sy
        in (case shutdown a (sub a) of
              (None, s') \<Rightarrow>
                (None, a\<lparr>sub := s', agent_status := AgentStopped\<rparr>,
                 logger_info (agent_name a) ''Agent stopped successfully''
                   (emitEvent (AgentStoppedEv (agent_id a)) sy1))
            | (Some msg, s') \<Rightarrow>
                (None, a\<lparr>sub := s'\<rparr>,
                 logger_error (agent_name a) (''Error stopping agent: '' @ msg) sy1)))"

section \<open>Orchestrator (class SupervisorAgent)\<close>

text \<open>
  \<open>subAgents\<close> is a JavaScript \<open>Map\<close>: an association list in insertion order whose keys
  are distinct. \<open>mapSet\<close> is \<open>Map.prototype.set\<close>: an existing key keeps its position
  and gets the new value, a new key is appended. The registration record holds a reference
  to the agent object; the model stores the agent in the record, and a method call through
  the reference writes the agent back under its key (\<open>putAgent\<close>). Priorities are
  integers.
\<close>

record 's SubAgentInfo =
  agent :: "'s BaseAgent"
  attached :: bool
  priority :: int

type_synonym 's SubAgents = "(string \<times> 's SubAgentInfo) list"

primrec mapSet :: "'k \<Rightarrow> 'v \<Rightarrow> ('k \<times> 'v) list \<Rightarrow> ('k \<times> 'v) list" where
  "mapSet k v [] = [(k, v)]"
| "mapSet k v (p # ps) = (if fst p = k then (k, v) # ps else p # mapSet k v ps)"

definition mapDelete :: "'k \<Rightarrow> ('k \<times> 'v) list \<Rightarrow> ('k \<times> 'v) list" where
  "mapDelete k ps = filter (\<lambda>p. fst p \<noteq> k) ps"

definition putAgent :: "string \<Rightarrow> 's BaseAgent \<Rightarrow> 's SubAgents \<Rightarrow> 's SubAgents" where
  "putAgent k a tbl = map (\<lambda>p. if fst p = k then (fst p, (snd p)\<lparr>agent := a\<rparr>) else p) tbl"

definition supervisorName :: string where
  "supervisorName = ''SupervisorAgent''"

text \<open>\<open>registerAgent(agent, priority = 5)\<close>: an omitted priority is \<open>None\<close>.\<close>

definition registerAgent ::
  "'s BaseAgent \<Rightarrow> int option \<Rightarrow> 's SubAgents \<Rightarrow> Sys \<Rightarrow> 's SubAgents \<times> Sys" where
  "registerAgent a popt tbl sy =
     (let p = (case popt of None \<Rightarrow> 5 | Some q \<Rightarrow> q)
      in (mapSet (agent_id a) \<lparr>agent = a, attached = True, priority = p\<rparr> tbl,
          logger_info supervisorName
            (''Registered sub-agent: '' @ agent_name a @ '' (priority: '' @ showInt p @ '')'') sy))"

definition unregisterAgent :: "string \<Rightarrow> 's SubAgents \<Rightarrow> Sys \<Rightarrow> 's SubAgents \<times> Sys" where
  "unregisterAgent agentId tbl sy =
     (case map_of tbl agentId of
        Some info \<Rightarrow>
          (mapDelete agentId tbl,
           logger_info supervisorName (''Unregistered sub-agent: '' @ agent_name (agent info)) sy)
      | None \<Rightarrow> (tbl, sy))"

definition setAttached :: "string \<Rightarrow> bool \<Rightarrow> 's SubAgents \<Rightarrow> 's SubAgents" where
  "setAttached k b tbl = map (\<lambda>p. if fst p = k then (fst p, (snd p)\<lparr>attached := b\<rparr>) else p) tbl"

definition attachAgent :: "string \<Rightarrow> 's SubAgents \<Rightarrow> Sys \<Rightarrow> bool \<times> 's SubAgents \<times> Sys" where
  "attachAgent agentId tbl sy =
     (case map_of tbl agentId of
        Some info \<Rightarrow>
          (True, setAttached agentId True tbl,
           logger_info supervisorName (''Attached sub-agent: '' @ agent_name (agent info)) sy)
      | None \<Rightarrow> (False, tbl, sy))"

definition detachAgent :: "string \<Rightarrow> 's SubAgents \<Rightarrow> Sys \<Rightarrow> bool \<times> 's SubAgents \<times> Sys" where
  "detachAgent agentId tbl sy =
     (case map_of tbl agentId of
        Some info \<Rightarrow>
          (True, setAttached agentId False tbl,
           logger_info supervisorName (''Detached sub-agent: '' @ agent_name (agent info)) sy)
      | None \<Rightarrow> (False, tbl, sy))"

text \<open>
  \<open>Array.prototype.sort\<close> is a stable sort; with the comparators
  \<open>(a, b) => b.priority - a.priority\<close> and \<open>(a, b) => a.priority - b.priority\<close> it is
  the stable sort by descending, respectively ascending, priority. \<open>startOrder\<close> and
  \<open>stopOrder\<close> are the arrays \<open>agents\<close> that \<open>startAllAgents\<close> and \<open>shutdown\<close>
  build and then walk.
\<close>

definition startOrder :: "'s SubAgents \<Rightarrow> 's SubAgents" where
  "startOrder tbl = sort_key (\<lambda>p. - priority (snd p)) (filter (\<lambda>p. attached (snd p)) tbl)"

definition stopOrder :: "'s SubAgents \<Rightarrow> 's SubAgents" where
  "stopOrder tbl = sort_key (\<lambda>p. priority (snd p)) tbl"

text \<open>
  An awaited call of a method of a registered agent, \<open>await agent.start()\<close> or
  \<open>await agent.stop()\<close>, from the call to the moment its promise settles. Its first
  argument is the table entry whose agent is called. It is given the registration table,
  the shared services and the rest of the world \<open>'w\<close> as they are at the call, and returns
  them as they are when the promise settles, with the message of the error if the promise
  is rejected. Whatever the event loop runs in between belongs to the call: the agent's
  hook, and the subscribers of the events the call emits. Once the supervisor itself has
  been started, its own subscriber of \<open>agent:error\<close> is one of them: it stops the failing
  agent, starts it again a second later and detaches it when that fails, while the sweep
  that made the call goes on.
\<close>

type_synonym ('s, 'w) AgentCall =
  "string \<times> 's SubAgentInfo \<Rightarrow> 's SubAgents \<Rightarrow> Sys \<Rightarrow> 'w
     \<Rightarrow> string option \<times> 's SubAgents \<times> Sys \<times> 'w"

text \<open>
  The two calls when the bus has no subscriber that acts on the agent's events (the
  supervisor has not been started) and nothing else runs meanwhile: \<open>BaseAgent.start\<close>,
  respectively \<open>BaseAgent.stop\<close>, on the entry's agent, written back to the table.
\<close>

definition startAlone :: "nat \<Rightarrow> ('s, 'w) AgentCall" where
  "startAlone now p tbl sy w =
     (case start now (agent (snd p)) sy of
        (r, a', sy') \<Rightarrow> (r, putAgent (fst p) a' tbl, sy', w))"

definition stopAlone :: "('s, 'w) AgentCall" where
  "stopAlone p tbl sy w =
     (case stop (agent (snd p)) sy of
        (r, a', sy') \<Rightarrow> (r, putAgent (fst p) a' tbl, sy', w))"

text \<open>
  The loop \<open>for (const { agent } of agents) { try { await agent.start() } catch ... }\<close> of
  \<open>startAllAgents\<close>, over the array built before it, and the method itself.
\<close>

fun startEach ::
  "('s, 'w) AgentCall \<Rightarrow> 's SubAgents \<Rightarrow> 's SubAgents \<Rightarrow> Sys \<Rightarrow> 'w \<Rightarrow> 's SubAgents \<times> Sys \<times> 'w" where
  "startEach awaitStart [] tbl sy w = (tbl, sy, w)"
| "startEach awaitStart (p # rest) tbl sy w =
     (case awaitStart p tbl sy w of
        (None, tbl', sy', w') \<Rightarrow> startEach awaitStart rest tbl' sy' w'
      | (Some msg, tbl', sy', w') \<Rightarrow>
          startEach awaitStart rest tbl'
            (logger_error supervisorName (''Failed to start '' @ agent_name (agent (snd p))) sy')
            w')"

definition startAllAgents ::
  "('s, 'w) AgentCall \<Rightarrow> 's SubAgents \<Rightarrow> Sys \<Rightarrow> 'w \<Rightarrow> 's SubAgents \<times> Sys \<times> 'w" where
  "startAllAgents awaitStart tbl sy w =
     (let agents = startOrder tbl
      in case startEach awaitStart agents tbl
                (logger_info supervisorName ''Starting all sub-agents...'' sy) w of
           (tbl', sy', w') \<Rightarrow>
             (tbl',
              logger_info supervisorName
                (''Started '' @ showNat (length agents) @ '' sub-agents'') sy',
              w'))"

fun stopEach ::
  "('s, 'w) AgentCall \<Rightarrow> 's SubAgents \<Rightarrow> 's SubAgents \<Rightarrow> Sys \<Rightarrow> 'w \<Rightarrow> 's SubAgents \<times> Sys \<times> 'w" where
  "stopEach awaitStop [] tbl sy w = (tbl, sy, w)"
| "stopEach awaitStop (p # rest) tbl sy w =
     (case awaitStop p tbl sy w of
        (None, tbl', sy', w') \<Rightarrow> stopEach awaitStop rest tbl' sy' w'
      | (Some msg, tbl', sy', w') \<Rightarrow>
          stopEach awaitStop rest tbl'
            (logger_error supervisorName (''Error stopping '' @ agent_name (agent (snd p))) sy')
            w')"

text \<open>The supervisor's own \<open>shutdown\<close> hook; \<open>this.subAgents.clear()\<close> empties the table.\<close>

definition supervisorShutdown ::
  "('s, 'w) AgentCall \<Rightarrow> 's SubAgents \<Rightarrow> Sys \<Rightarrow> 'w \<Rightarrow> 's SubAgents \<times> Sys \<times> 'w" where
  "supervisorShutdown awaitStop tbl sy w =
     (let agents = stopOrder tbl
      in case stopEach awaitStop agents tbl
                (logger_info supervisorName ''Shutting down all sub-agents...'' sy) w of
           (tbl', sy', w') \<Rightarrow>
             ([], logger_info supervisorName ''All sub-agents stopped'' sy', w'))"

text \<open>
  \<open>traced call\<close> is \<open>call\<close> together with a record of its invocations: beside the world
  it keeps the list of the keys (agent ids) of the entries it was called on.
\<close>

definition traced :: "('s, 'w) AgentCall \<Rightarrow> ('s, 'w \<times> string list) AgentCall" where
  "traced call p tbl sy wt =
     (case call p tbl sy (fst wt) of
        (r, tbl', sy', w') \<Rightarrow> (r, tbl', sy', (w', snd wt @ [fst p])))"

subsection \<open>Routing\<close>

text \<open>
  A submitted task, read through the cast
  \<open>task as { type?: string; agentId?: string; data?: unknown }\<close>. A JavaScript string is
  truthy when it is present and not empty.
\<close>

record 'd Task =
  task_type :: "string option"
  task_agentId :: "string option"
  task_data :: 'd

definition truthyStr :: "string option \<Rightarrow> bool" where
  "truthyStr s = (case s of None \<Rightarrow> False | Some t \<Rightarrow> t \<noteq> [])"

definition typeToAgent :: "(string \<times> string) list" where
  "typeToAgent =
     [(''model'', ''ModelRouterAgent''),
      (''tool'', ''ToolsManagerAgent''),
      (''function'', ''FunctionsAgent''),
      (''memory'', ''MemoryAgent''),
      (''knowledge'', ''KnowledgeAgent''),
      (''workflow'', ''WorkflowPlannerAgent''),
      (''todo'', ''TodoManagerAgent''),
      (''chat'', ''ChatSessionManagerAgent''),
      (''observe'', ''ObservabilityAgent''),
      (''personalize'', ''PersonalizationAgent''),
      (''security'', ''SecurityAgent''),
      (''integrate'', ''IntegrationAgent'')]"

text \<open>
  \<open>agentNameFor\<close> is \<open>task.type ? typeToAgent[task.type] : undefined\<close>. A type that
  names a property inherited from \<open>Object.prototype\<close> yields a non-string there, which
  equals no agent name; in the model it yields \<open>None\<close>, with the same routing.
\<close>

definition agentNameFor :: "string option \<Rightarrow> string option" where
  "agentNameFor ty = (if truthyStr ty then map_of typeToAgent (the ty) else None)"

definition routeTask :: "string option \<Rightarrow> 's SubAgents \<Rightarrow> 's SubAgentInfo option" where
  "routeTask ty tbl =
     (let byName =
            (case agentNameFor ty of
               None \<Rightarrow> None
             | Some agentName \<Rightarrow>
                 if agentName = [] then None
                 else find (\<lambda>info. agent_name (agent info) = agentName \<and> attached info)
                        (map snd tbl))
      in case byName of
           Some info \<Rightarrow> Some info
         | None \<Rightarrow>
             find (\<lambda>info. attached info \<and> agent_status (agent info) = AgentRunning)
               (map snd tbl))"

text \<open>
  \<open>processTask\<close> either throws an error (\<open>Fail\<close> with its message) or returns the
  promise of \<open>this.sendRequest(to, data)\<close> (\<open>Forward to data\<close>).
\<close>

datatype 'd Routed = Forward string 'd | Fail string

definition processTask :: "'d Task \<Rightarrow> 's SubAgents \<Rightarrow> 'd Routed" where
  "processTask task tbl =
     (if truthyStr (task_agentId task)
      then
        (let agentId = the (task_agentId task)
         in case map_of tbl agentId of
              Some info \<Rightarrow>
                if attached info then Forward agentId (task_data task)
                else Fail (''Agent '' @ agentId @ '' not found or not attached'')
            | None \<Rightarrow> Fail (''Agent '' @ agentId @ '' not found or not attached''))
      else
        (case routeTask (task_type task) tbl of
           Some targetAgent \<Rightarrow> Forward (agent_id (agent targetAgent)) (task_data task)
         | None \<Rightarrow> Fail ''No suitable agent found for task''))"

section \<open>Dependency scheduler (TodoManagerAgent.autoScheduleTasks)\<close>

datatype TodoStatus = TodoPending | TodoInProgress | TodoCompleted | TodoCancelled

datatype TodoPriority = PriorityLow | PriorityMedium | PriorityHigh | PriorityCritical

datatype PlannerTaskType = TypeCode | TypeReview | TypeTest | TypeDeploy | TypeDocument | TypeOther

record PlannerTask =
  task_id :: string
  task_name :: string
  task_kind :: PlannerTaskType
  files :: "string list"
  dependencies :: "string list"
  estimatedTime :: "nat option"
  actualTime :: "nat option"
  task_status :: TodoStatus
  task_priority :: TodoPriority

text \<open>
  \<open>this.tasks\<close> is a \<open>Map<string, PlannerTask>\<close>: an association list in insertion
  order. Every writer (\<open>addPlannerTask\<close>, \<open>updatePlannerTask\<close>, \<open>loadTodos\<close>) stores a
  task under its own id; \<open>storeOk\<close> says so, and that the keys are distinct.
\<close>

type_synonym TaskStore = "(string \<times> PlannerTask) list"

definition storeOk :: "TaskStore \<Rightarrow> bool" where
  "storeOk tasks =
     (distinct (map fst tasks) \<and> list_all (\<lambda>p. task_id (snd p) = fst p) tasks)"

text \<open>
  A JavaScript \<open>Set\<close> of strings is the list of its elements in insertion order.
  \<open>setAdd\<close> is \<open>Set.prototype.add\<close>, \<open>setFromList\<close> is \<open>new Set(array)\<close>,
  \<open>pending.has(x)\<close> is \<open>x \<in> set pending\<close> and \<open>pending.delete(x)\<close> is
  \<open>removeAll x pending\<close>.
\<close>

definition setAdd :: "'a \<Rightarrow> 'a list \<Rightarrow> 'a list" where
  "setAdd x s = (if x \<in> set s then s else s @ [x])"

definition setFromList :: "'a list \<Rightarrow> 'a list" where
  "setFromList xs = foldl (\<lambda>s x. setAdd x s) [] xs"

definition pendingIds :: "TaskStore \<Rightarrow> string list" where
  "pendingIds tasks =
     setFromList (map task_id (filter (\<lambda>t. task_status t = TodoPending) (map snd tasks)))"

text \<open>
  \<open>task.dependencies.every(depId => dep?.status === 'completed' || !pending.has(depId))\<close>
  with \<open>dep = this.tasks.get(depId)\<close>.
\<close>

definition depDone :: "TaskStore \<Rightarrow> string \<Rightarrow> bool" where
  "depDone tasks depId =
     (case map_of tasks depId of None \<Rightarrow> False | Some dep \<Rightarrow> task_status dep = TodoCompleted)"

definition depsComplete :: "TaskStore \<Rightarrow> string list \<Rightarrow> PlannerTask \<Rightarrow> bool" where
  "depsComplete tasks pending task =
     list_all (\<lambda>depId. depDone tasks depId \<or> depId \<notin> set pending) (dependencies task)"

text \<open>
  One run of \<open>for (const taskId of pending)\<close>. The loop deletes only the element it is
  visiting, so it visits every element the set had when the loop began: the list argument.
  The state is the set \<open>pending\<close> as it stands, the array \<open>scheduled\<close> and the flag
  \<open>foundReady\<close>. \<open>this.tasks.get(taskId)!\<close> on a missing key makes
  \<open>task.dependencies\<close> throw a TypeError: the result \<open>None\<close>.
\<close>

fun scanPass ::
  "TaskStore \<Rightarrow> string list \<Rightarrow> string list \<times> PlannerTask list \<times> bool
     \<Rightarrow> (string list \<times> PlannerTask list \<times> bool) option" where
  "scanPass tasks [] st = Some st"
| "scanPass tasks (taskId # rest) (pending, scheduled, foundReady) =
     (case map_of tasks taskId of
        None \<Rightarrow> None
      | Some task \<Rightarrow>
          if depsComplete tasks pending task
          then scanPass tasks rest (removeAll taskId pending, scheduled @ [task], True)
          else scanPass tasks rest (pending, scheduled, foundReady))"

text \<open>
  The \<open>while (pending.size > 0)\<close> loop: a pass that found nothing ready ends it
  (\<open>break\<close>). A pass that found something removed it from \<open>pending\<close>, which is why the
  loop terminates.
\<close>

function scheduleLoop ::
  "TaskStore \<Rightarrow> string list \<Rightarrow> PlannerTask list \<Rightarrow> PlannerTask list option" where
  "scheduleLoop tasks pending scheduled =
     (if pending = [] then Some scheduled
      else
        (case scanPass tasks pending (pending, scheduled, False) of
           None \<Rightarrow> None
         | Some (pending', scheduled', foundReady) \<Rightarrow>
             if foundReady then scheduleLoop tasks pending' scheduled'
             else Some scheduled'))"
  by pat_completeness auto
termination
proof (relation "measure (\<lambda>(tasks, pending, scheduled). length pending)")
  show "wf (measure (\<lambda>(tasks :: TaskStore, pending :: string list, scheduled :: PlannerTask list).
               length pending))"
    by simp
next
  fix tasks :: TaskStore and pending pending' :: "string list"
    and scheduled scheduled' :: "PlannerTask list" and st st' foundReady
  assume ne: "pending \<noteq> []"
    and run: "scanPass tasks pending (pending, scheduled, False) = Some st"
    and st: "(pending', st') = st" "(scheduled', foundReady) = st'" and found: foundReady
  have le: "scanPass tasks ks (p, s, f) = Some (p', s', f') \<Longrightarrow> length p' \<le> length p"
    for ks p s f p' s' f'
  proof (induction ks arbitrary: p s f)
    case Nil
    then show ?case by simp
  next
    case (Cons k ks)
    show ?case
    proof (cases "map_of tasks k")
      case None
      then show ?thesis using Cons.prems by simp
    next
      case (Some t)
      show ?thesis
      proof (cases "depsComplete tasks p t")
        case True
        then have "scanPass tasks ks (removeAll k p, s @ [t], True) = Some (p', s', f')"
          using Cons.prems Some by simp
        then have "length p' \<le> length (removeAll k p)" by (rule Cons.IH)
        also have "\<dots> \<le> length p" by simp
        finally show ?thesis .
      next
        case False
        then have "scanPass tasks ks (p, s, f) = Some (p', s', f')"
          using Cons.prems Some by simp
        then show ?thesis by (rule Cons.IH)
      qed
    qed
  qed
  have less: "scanPass tasks ks (p, s, False) = Some (p', s', True) \<Longrightarrow> set ks \<subseteq> set p
                \<Longrightarrow> length p' < length p" for ks p s p' s'
  proof (induction ks)
    case Nil
    then show ?case by simp
  next
    case (Cons k ks)
    show ?case
    proof (cases "map_of tasks k")
      case None
      then show ?thesis using Cons.prems by simp
    next
      case (Some t)
      show ?thesis
      proof (cases "depsComplete tasks p t")
        case True
        then have "scanPass tasks ks (removeAll k p, s @ [t], True) = Some (p', s', True)"
          using Cons.prems Some by simp
        then have "length p' \<le> length (removeAll k p)" by (rule le)
        moreover have "length (removeAll k p) < length p"
          using Cons.prems(2) by (simp add: length_removeAll_less)
        ultimately show ?thesis by simp
      next
        case False
        then have "scanPass tasks ks (p, s, False) = Some (p', s', True)"
          using Cons.prems Some by simp
        then show ?thesis using Cons.IH Cons.prems(2) by simp
      qed
    qed
  qed
  have "scanPass tasks pending (pending, scheduled, False) = Some (pending', scheduled', True)"
    using run st found by simp
  then have "length pending' < length pending"
    by (rule less) simp
  then show "((tasks, pending', scheduled'), (tasks, pending, scheduled))
               \<in> measure (\<lambda>(tasks, pending, scheduled). length pending)"
    by simp
qed

declare scheduleLoop.simps [simp del]

text \<open>
  The planner-task part of the agent's state (the field \<open>tasks\<close>).
  \<open>autoScheduleTasks\<close> returns the array
  \<open>scheduled\<close> (or throws) and leaves the agent as the code leaves it.
\<close>

record TodoManager =
  plannerTasks :: TaskStore

definition autoScheduleTasks :: "TodoManager \<Rightarrow> PlannerTask list option \<times> TodoManager" where
  "autoScheduleTasks this =
     (scheduleLoop (plannerTasks this) (pendingIds (plannerTasks this)) [], this)"

text \<open>
  The dependency edges of a store: \<open>(a, b)\<close> when the task stored under \<open>a\<close> lists
  \<open>b\<close> among its dependencies. A store contains a dependency cycle when this relation is
  not acyclic.
\<close>

definition depEdges :: "TaskStore \<Rightarrow> (string \<times> string) list" where
  "depEdges tasks = concat (map (\<lambda>p. map (\<lambda>d. (fst p, d)) (dependencies (snd p))) tasks)"

text \<open>
  The loop invariant used below: \<open>pending\<close> and the ids of \<open>scheduled\<close> partition the
  ids that were pending at the start, every scheduled element is a stored record, none of
  its dependencies is still pending, and none of them is scheduled at or after it.
\<close>

fun ordered :: "PlannerTask list \<Rightarrow> bool" where
  "ordered [] = True"
| "ordered (t # ts) =
     (set (dependencies t) \<inter> task_id ` set (t # ts) = {} \<and> ordered ts)"

definition schedInv :: "TaskStore \<Rightarrow> string list \<Rightarrow> string list \<Rightarrow> PlannerTask list \<Rightarrow> bool" where
  "schedInv tasks P0 p s =
     (distinct p \<and> distinct (map task_id s)
      \<and> set p \<union> task_id ` set s = set P0
      \<and> set p \<inter> task_id ` set s = {}
      \<and> (\<forall>t \<in> set s. map_of tasks (task_id t) = Some t \<and> set (dependencies t) \<inter> set p = {})
      \<and> ordered s)"

text \<open>Every id pending at the start is stored, under itself, with status pending.\<close>

definition pendingOk :: "TaskStore \<Rightarrow> string list \<Rightarrow> bool" where
  "pendingOk tasks P0 =
     (\<forall>k \<in> set P0. \<exists>t. map_of tasks k = Some t \<and> task_status t = TodoPending \<and> task_id t = k)"

section \<open>JavaScript values\<close>

text \<open>
  The values that flow through contexts, results, step configurations and message
  payloads (all typed \<open>unknown\<close> in the source). Numbers are integers. An object is the
  list of its own properties in insertion order. \<open>JContextRef\<close> is a reference to the
  execution's live \<open>context\<close> object, which the result of an agent step holds and which
  loop steps mutate afterwards. Properties inherited from \<open>Object.prototype\<close> and
  \<open>Array.prototype\<close> are not modelled: reading one yields \<open>undefined\<close>.
\<close>

datatype jsval =
    JUndefined
  | JNull
  | JBool bool
  | JNum int
  | JStr string
  | JArr "jsval list"
  | JObj "(string \<times> jsval) list"
  | JContextRef

fun truthy :: "jsval \<Rightarrow> bool" where
  "truthy JUndefined = False"
| "truthy JNull = False"
| "truthy (JBool b) = b"
| "truthy (JNum n) = (n \<noteq> 0)"
| "truthy (JStr s) = (s \<noteq> [])"
| "truthy (JArr xs) = True"
| "truthy (JObj kv) = True"
| "truthy JContextRef = True"

text \<open>\<open>value && typeof value === 'object'\<close>\<close>

fun isObject :: "jsval \<Rightarrow> bool" where
  "isObject (JArr xs) = True"
| "isObject (JObj kv) = True"
| "isObject JContextRef = True"
| "isObject v = False"

fun joinComma :: "string list \<Rightarrow> string" where
  "joinComma [] = []"
| "joinComma [x] = x"
| "joinComma (x # y # ys) = x @ '','' @ joinComma (y # ys)"

text \<open>The string a template literal \<open>`${v}`\<close> puts in place of a value.\<close>

fun templateString :: "jsval \<Rightarrow> string" where
  "templateString JUndefined = ''undefined''"
| "templateString JNull = ''null''"
| "templateString (JBool b) = (if b then ''true'' else ''false'')"
| "templateString (JNum n) = showInt n"
| "templateString (JStr s) = s"
| "templateString (JArr xs) =
     joinComma (map (\<lambda>x. if x = JUndefined \<or> x = JNull then [] else templateString x) xs)"
| "templateString (JObj kv) = ''[object Object]''"
| "templateString JContextRef = ''[object Object]''"

text \<open>\<open>value[part]\<close> for a string key; \<open>ctx\<close> is the execution's context object.\<close>

definition getProp :: "(string \<times> jsval) list \<Rightarrow> jsval \<Rightarrow> string \<Rightarrow> jsval" where
  "getProp ctx v part =
     (case v of
        JObj kv \<Rightarrow> (case map_of kv part of None \<Rightarrow> JUndefined | Some x \<Rightarrow> x)
      | JContextRef \<Rightarrow> (case map_of ctx part of None \<Rightarrow> JUndefined | Some x \<Rightarrow> x)
      | JArr xs \<Rightarrow>
          if part = ''length'' then JNum (int (length xs))
          else (case find (\<lambda>i. showNat i = part) [0..<length xs] of
                  None \<Rightarrow> JUndefined
                | Some i \<Rightarrow> xs ! i)
      | _ \<Rightarrow> JUndefined)"

text \<open>\<open>Object.entries(v)\<close>\<close>

definition entries :: "(string \<times> jsval) list \<Rightarrow> jsval \<Rightarrow> (string \<times> jsval) list" where
  "entries ctx v =
     (case v of
        JObj kv \<Rightarrow> kv
      | JContextRef \<Rightarrow> ctx
      | JArr xs \<Rightarrow> zip (map showNat [0..<length xs]) xs
      | JStr s \<Rightarrow> zip (map showNat [0..<length s]) (map (\<lambda>c. JStr [c]) s)
      | _ \<Rightarrow> [])"

text \<open>\<open>s.split(c)\<close> for a one-character separator.\<close>

fun splitOn :: "char \<Rightarrow> string \<Rightarrow> string list" where
  "splitOn c [] = [[]]"
| "splitOn c (x # xs) =
     (if x = c then [] # splitOn c xs
      else (case splitOn c xs of [] \<Rightarrow> [[x]] | w # ws \<Rightarrow> (x # w) # ws))"

section \<open>Requests between agents (BaseAgent.sendRequest)\<close>

text \<open>
  One call of \<open>sendRequest(to, content)\<close> by the agent \<open>rq_self\<close>, followed through the
  event loop. The state holds what the call created: whether its handler is registered on
  \<open>message:<this.id>\<close>, the delay of its timeout while that is armed, and the promise it
  returned. A settled promise ignores later \<open>resolve\<close> and \<open>reject\<close> calls.
  \<open>requestId\<close> is the value of \<open>uuidv4()\<close>.
\<close>

datatype MessageType = MsgRequest | MsgResponse | MsgEvent | MsgError

record AgentMessage =
  msg_id :: string
  msg_from :: string
  msg_to :: string
  msg_type :: MessageType
  msg_content :: jsval

datatype PromiseState = PromisePending | PromiseResolved jsval | PromiseRejected string

record RequestState =
  rq_self :: string
  rq_id :: string
  rq_to :: string
  rq_listener :: bool
  rq_timer :: "nat option"
  rq_promise :: PromiseState

definition resolve :: "jsval \<Rightarrow> RequestState \<Rightarrow> RequestState" where
  "resolve v st =
     (if rq_promise st = PromisePending then st\<lparr>rq_promise := PromiseResolved v\<rparr> else st)"

definition reject :: "string \<Rightarrow> RequestState \<Rightarrow> RequestState" where
  "reject msg st =
     (if rq_promise st = PromisePending then st\<lparr>rq_promise := PromiseRejected msg\<rparr> else st)"

text \<open>
  The closure \<open>handler\<close>. Reading \<open>payload.requestId\<close> of a \<open>null\<close> or \<open>undefined\<close>
  content throws a TypeError: the result \<open>Inl\<close> with its message (whose wording is the
  JavaScript engine's), and the state as it was.
\<close>

definition handler :: "AgentMessage \<Rightarrow> RequestState \<Rightarrow> string + RequestState" where
  "handler message st =
     (let payload = msg_content message
      in if payload = JUndefined \<or> payload = JNull
         then Inl ''Cannot read properties of undefined (reading requestId)''
         else if getProp [] payload ''requestId'' = JStr (rq_id st)
         then
           (let st1 = st\<lparr>rq_timer := None, rq_listener := False\<rparr>
            in if msg_type message = MsgError
               then Inr (reject
                      (case getProp [] payload ''error'' of
                         JUndefined \<Rightarrow> []
                       | e \<Rightarrow> templateString e) st1)
               else Inr (resolve (getProp [] payload ''data'') st1))
         else Inr st)"

text \<open>
  The body of the promise executor: arm the 30000 ms timeout, register the handler, and
  emit the request on \<open>message:<to>\<close>, which calls the handler at once when the agent
  addresses itself. An exception inside the executor rejects the promise.
\<close>

definition sendRequest :: "string \<Rightarrow> string \<Rightarrow> string \<Rightarrow> jsval \<Rightarrow> RequestState" where
  "sendRequest self requestId to content' =
     (let st = \<lparr>rq_self = self, rq_id = requestId, rq_to = to, rq_listener = True,
                rq_timer = Some 30000, rq_promise = PromisePending\<rparr>;
          request = \<lparr>msg_id = requestId, msg_from = self, msg_to = to, msg_type = MsgRequest,
                     msg_content = content'\<rparr>
      in if to = self
         then (case handler request st of Inl e \<Rightarrow> reject e st | Inr st' \<Rightarrow> st')
         else st)"

text \<open>
  What the event loop does next: a message is emitted on some agent's channel, or the
  runtime runs the timeout callback, which it does only for a timeout that is still armed.
\<close>

datatype LoopEvent = Deliver AgentMessage | TimerFires

definition onEvent :: "LoopEvent \<Rightarrow> RequestState \<Rightarrow> RequestState" where
  "onEvent ev st =
     (case ev of
        Deliver message \<Rightarrow>
          if msg_to message = rq_self st \<and> rq_listener st
          then (case handler message st of Inl e \<Rightarrow> st | Inr st' \<Rightarrow> st')
          else st
      | TimerFires \<Rightarrow>
          (case rq_timer st of
             None \<Rightarrow> st
           | Some ms \<Rightarrow>
               reject (''Request to '' @ rq_to st @ '' timed out'') (st\<lparr>rq_timer := None\<rparr>)))"

definition runEvents :: "LoopEvent list \<Rightarrow> RequestState \<Rightarrow> RequestState" where
  "runEvents evs st = foldl (\<lambda>s ev. onEvent ev s) st evs"

section \<open>Workflow execution engine (class WorkflowPlannerAgent)\<close>

datatype WorkflowStatus = WfPending | WfRunning | WfCompleted | WfFailed | WfPaused

datatype StepType = ToolStep | FunctionStep | AgentStep | ConditionStep | LoopStep

text \<open>\<open>next?: string | string[]\<close>\<close>

datatype StepNext = NextAbsent | NextId string | NextIds "string list"

record WorkflowStep =
  step_id :: string
  step_name :: string
  step_type :: StepType
  config :: "(string \<times> jsval) list"
  step_next :: StepNext
  condition :: "string option"

record WorkflowDefinition =
  wf_id :: string
  wf_name :: string
  wf_description :: string
  wf_version :: string
  wf_attached :: bool
  wf_enabled :: bool
  steps :: "WorkflowStep list"

record WorkflowExecution =
  exec_id :: string
  workflowId :: string
  exec_status :: WorkflowStatus
  currentStep :: "string option"
  exec_startTime :: nat
  endTime :: "nat option"
  exec_context :: "(string \<times> jsval) list"
  exec_results :: "(string \<times> jsval) list"
  exec_errors :: "string list"

text \<open>
  What the engine calls but does not contain. \<open>jsFunction body context results\<close> is
  \<open>new Function('context', 'results', body)(context, results)\<close>, \<open>None\<close> when building
  or calling the function throws; the expressions are taken to have no side effects.
  \<open>awaitRequest w to content\<close> is how an awaited \<open>this.sendRequest(to, content)\<close>
  settles in the world \<open>w\<close>: \<open>Inr\<close> the response data, or \<open>Inl\<close> the message of the
  error it rejects with (the remote error or the timeout), and the world afterwards.
\<close>

record 'w Runtime =
  jsFunction :: "string \<Rightarrow> (string \<times> jsval) list \<Rightarrow> (string \<times> jsval) list \<Rightarrow> jsval option"
  awaitRequest :: "'w \<Rightarrow> string \<Rightarrow> jsval \<Rightarrow> (string + jsval) \<times> 'w"

definition plannerName :: string where
  "plannerName = ''WorkflowPlannerAgent''"

definition logger_debug :: "string \<Rightarrow> string \<Rightarrow> Sys \<Rightarrow> Sys" where
  "logger_debug src msg sy = sy\<lparr>logged := logged sy @ [(Debug, src, msg)]\<rparr>"

definition cfg :: "WorkflowStep \<Rightarrow> string \<Rightarrow> jsval" where
  "cfg step key = (case map_of (config step) key of None \<Rightarrow> JUndefined | Some v \<Rightarrow> v)"

text \<open>
  \<open>evaluateCondition\<close> returns whatever the expression returns (the declared type
  \<open>boolean\<close> is not checked) and \<open>false\<close> when it throws.
\<close>

definition evaluateCondition :: "'w Runtime \<Rightarrow> string \<Rightarrow> WorkflowExecution \<Rightarrow> jsval" where
  "evaluateCondition rt src execution =
     (case jsFunction rt (''return '' @ src) (exec_context execution) (exec_results execution) of
        None \<Rightarrow> JBool False
      | Some v \<Rightarrow> v)"

fun walkPath :: "(string \<times> jsval) list \<Rightarrow> jsval \<Rightarrow> string list \<Rightarrow> jsval" where
  "walkPath ctx v [] = v"
| "walkPath ctx v (part # parts) =
     (if truthy v \<and> isObject v then walkPath ctx (getProp ctx v part) parts else JUndefined)"

definition resolveValue :: "string \<Rightarrow> WorkflowExecution \<Rightarrow> jsval" where
  "resolveValue path execution =
     walkPath (exec_context execution)
       (JObj [(''context'', JContextRef), (''results'', JObj (exec_results execution))])
       (splitOn CHR ''.'' path)"

definition resolveParams :: "jsval \<Rightarrow> WorkflowExecution \<Rightarrow> jsval" where
  "resolveParams params execution =
     JObj (foldl
             (\<lambda>resolved kv.
                mapSet (fst kv)
                  (case snd kv of
                     JStr v \<Rightarrow> if take 8 v = ''context.'' then resolveValue v execution else JStr v
                   | v \<Rightarrow> v)
                  resolved)
             [] (entries (exec_context execution) params))"

text \<open>\<open>x || {}\<close>\<close>

definition orEmptyObject :: "jsval \<Rightarrow> jsval" where
  "orEmptyObject v = (if truthy v then v else JObj [])"

text \<open>
  A step's outcome is \<open>Inr\<close> the value its promise resolves with or \<open>Inl\<close> the message
  of the error it rejects with, together with the context object as the step left it, the
  shared services and the world.
\<close>

type_synonym 'w StepResult = "(string + jsval) \<times> (string \<times> jsval) list \<times> Sys \<times> 'w"

definition executeToolStep ::
  "'w Runtime \<Rightarrow> WorkflowStep \<Rightarrow> WorkflowExecution \<Rightarrow> Sys \<Rightarrow> 'w \<Rightarrow> 'w StepResult" where
  "executeToolStep rt step execution sy w =
     (let r = awaitRequest rt w ''ToolsManagerAgent''
                (JObj [(''action'', JStr ''execute''),
                       (''toolId'', cfg step ''toolId''),
                       (''params'', resolveParams (orEmptyObject (cfg step ''params'')) execution)])
      in (fst r, exec_context execution, sy, snd r))"

definition executeFunctionStep ::
  "'w Runtime \<Rightarrow> WorkflowStep \<Rightarrow> WorkflowExecution \<Rightarrow> Sys \<Rightarrow> 'w \<Rightarrow> 'w StepResult" where
  "executeFunctionStep rt step execution sy w =
     (let r = awaitRequest rt w ''FunctionsAgent''
                (JObj [(''action'', JStr ''execute''),
                       (''functionId'', cfg step ''functionId''),
                       (''input'', resolveParams (orEmptyObject (cfg step ''input'')) execution)])
      in (fst r, exec_context execution, sy, snd r))"

definition executeAgentStep ::
  "WorkflowStep \<Rightarrow> WorkflowExecution \<Rightarrow> Sys \<Rightarrow> 'w \<Rightarrow> 'w StepResult" where
  "executeAgentStep step execution sy w =
     (Inr (JObj [(''task'', cfg step ''task''), (''context'', JContextRef)]),
      exec_context execution,
      logger_debug plannerName (''Agent step: '' @ templateString (cfg step ''task'')) sy,
      w)"

text \<open>
  The values \<open>for (const item of items)\<close> visits, \<open>None\<close> when \<open>items\<close> is not
  iterable (a TypeError).
\<close>

definition iterate :: "jsval \<Rightarrow> jsval list option" where
  "iterate v =
     (case v of
        JArr xs \<Rightarrow> Some xs
      | JStr s \<Rightarrow> Some (map (\<lambda>c. JStr [c]) s)
      | _ \<Rightarrow> None)"

text \<open>
  The body of the loop in \<open>executeLoopStep\<close>, for the items still to visit. \<open>inner\<close> runs
  the referenced step on a context (\<open>None\<close> when the workflow has no step of that id);
  its own result is \<open>None\<close> when the nesting of loop steps exceeds the depth allowed.
\<close>

fun loopItems ::
  "((string \<times> jsval) list \<Rightarrow> Sys \<Rightarrow> 'w \<Rightarrow> 'w StepResult option) option \<Rightarrow> jsval list \<Rightarrow> jsval list
     \<Rightarrow> (string \<times> jsval) list \<Rightarrow> Sys \<Rightarrow> 'w \<Rightarrow> 'w StepResult option" where
  "loopItems inner [] acc ctx sy w = Some (Inr (JArr acc), ctx, sy, w)"
| "loopItems inner (item # rest) acc ctx sy w =
     (let ctx1 = mapSet ''currentItem'' item ctx
      in case inner of
           None \<Rightarrow> loopItems inner rest acc ctx1 sy w
         | Some run \<Rightarrow>
             (case run ctx1 sy w of
                None \<Rightarrow> None
              | Some (Inl e, ctx2, sy2, w2) \<Rightarrow> Some (Inl e, ctx2, sy2, w2)
              | Some (Inr v, ctx2, sy2, w2) \<Rightarrow> loopItems inner rest (acc @ [v]) ctx2 sy2 w2))"

text \<open>
  \<open>executeStep\<close> with \<open>executeLoopStep\<close> inlined. A loop step runs its referenced step,
  which may again be a loop step; \<open>depth\<close> bounds that nesting, and the result is
  \<open>None\<close> when the bound is hit. \<open>wfs\<close> is the agent's field \<open>workflows\<close>, its \<open>Map\<close> of definitions.
  The \<open>default\<close> branch of the source's \<open>switch\<close> has no counterpart: \<open>StepType\<close> has
  the five kinds only. The wording of the TypeErrors is the JavaScript engine's.
\<close>

fun executeStep ::
  "nat \<Rightarrow> 'w Runtime \<Rightarrow> (string \<times> WorkflowDefinition) list \<Rightarrow> WorkflowStep \<Rightarrow> WorkflowExecution
     \<Rightarrow> Sys \<Rightarrow> 'w \<Rightarrow> 'w StepResult option" where
  "executeStep 0 rt wfs step execution sy w = None"
| "executeStep (Suc depth) rt wfs step execution sy w =
     (case step_type step of
        ToolStep \<Rightarrow> Some (executeToolStep rt step execution sy w)
      | FunctionStep \<Rightarrow> Some (executeFunctionStep rt step execution sy w)
      | AgentStep \<Rightarrow> Some (executeAgentStep step execution sy w)
      | ConditionStep \<Rightarrow>
          Some (Inr (evaluateCondition rt (templateString (cfg step ''condition'')) execution),
                exec_context execution, sy, w)
      | LoopStep \<Rightarrow>
          (case cfg step ''items'' of
             JStr path \<Rightarrow>
               (case iterate (resolveValue path execution) of
                  None \<Rightarrow> Some (Inl ''items is not iterable'', exec_context execution, sy, w)
                | Some items \<Rightarrow>
                    loopItems
                      (map_option
                         (\<lambda>innerStep ctx sy' w'.
                            executeStep depth rt wfs innerStep
                              (execution\<lparr>exec_context := ctx\<rparr>) sy' w')
                         (case map_of wfs (workflowId execution) of
                            None \<Rightarrow> None
                          | Some workflow \<Rightarrow>
                              find (\<lambda>s. JStr (step_id s) = cfg step ''stepId'') (steps workflow)))
                      items [] (exec_context execution) sy w)
           | _ \<Rightarrow> Some (Inl ''path.split is not a function'', exec_context execution, sy, w)))"

text \<open>
  \<open>stepMap\<close> is \<open>new Map(workflow.steps.map(s => [s.id, s]))\<close>: of two steps with the
  same id the later one is kept. \<open>truthyId\<close> is the truthiness of a \<open>string | undefined\<close>.
\<close>

definition stepMapGet :: "WorkflowStep list \<Rightarrow> string \<Rightarrow> WorkflowStep option" where
  "stepMapGet ss k = map_of (rev (map (\<lambda>s. (step_id s, s)) ss)) k"

definition truthyNext :: "StepNext \<Rightarrow> bool" where
  "truthyNext n = (case n of NextAbsent \<Rightarrow> False | NextId s \<Rightarrow> s \<noteq> [] | NextIds xs \<Rightarrow> True)"

definition nthOpt :: "'a list \<Rightarrow> nat \<Rightarrow> 'a option" where
  "nthOpt xs i = (if i < length xs then Some (xs ! i) else None)"

text \<open>
  What the loop body does once the awaited \<open>executeStep\<close> has settled, on the execution
  object as it is at that moment: the \<open>try\<close> part after the \<open>await\<close> for a value, the
  \<open>catch\<close> part for an error. The result is the execution, the shared services, and
  \<open>Some\<close> the new \<open>currentStepId\<close> (itself \<open>None\<close> for \<open>undefined\<close>) when the loop
  goes back to its test, or \<open>None\<close> when it leaves by \<open>break\<close>.
\<close>

definition afterStep ::
  "'w Runtime \<Rightarrow> WorkflowStep \<Rightarrow> string + jsval \<Rightarrow> WorkflowExecution \<Rightarrow> Sys
     \<Rightarrow> WorkflowExecution \<times> Sys \<times> string option option" where
  "afterStep rt step outcome execution sy =
     (case outcome of
        Inr result \<Rightarrow>
          (let ex1 = execution\<lparr>exec_results := mapSet (step_id step) result (exec_results execution)\<rparr>
           in if truthyNext (step_next step)
              then (case step_next step of
                      NextIds ids \<Rightarrow>
                        (let conditionResult =
                               evaluateCondition rt
                                 (case condition step of
                                    None \<Rightarrow> ''true''
                                  | Some c \<Rightarrow> if c = [] then ''true'' else c)
                                 ex1
                         in (ex1, sy, Some (if truthy conditionResult then nthOpt ids 0 else nthOpt ids 1)))
                    | NextId n \<Rightarrow> (ex1, sy, Some (Some n))
                    | NextAbsent \<Rightarrow> (ex1, sy, None))
              else (ex1, sy, None))
      | Inl errorMsg \<Rightarrow>
          (let ex1 = execution\<lparr>exec_errors :=
                        exec_errors execution @ [''Step '' @ step_name step @ '': '' @ errorMsg]\<rparr>;
               sy1 = logger_error plannerName (''Step failed: '' @ step_name step) sy
           in (case step_next step of
                 NextId n \<Rightarrow>
                   if n \<noteq> [] then (ex1, sy1, Some (Some n))
                   else (ex1\<lparr>exec_status := WfFailed\<rparr>, sy1, None)
               | _ \<Rightarrow> (ex1\<lparr>exec_status := WfFailed\<rparr>, sy1, None))))"

definition truthyId :: "string option \<Rightarrow> bool" where
  "truthyId s = (case s of None \<Rightarrow> False | Some t \<Rightarrow> t \<noteq> [])"

text \<open>
  The \<open>while (currentStepId && execution.status === 'running')\<close> loop. A workflow whose
  steps lead back to one another never leaves it; \<open>fuel\<close> bounds the number of
  iterations, and the result is \<open>None\<close> when the bound (or the nesting bound of a step) is
  hit. The execution object changes only through this loop between two of its awaits, except
  for \<open>cancelExecution\<close> and \<open>pauseExecution\<close>, which may run while the loop waits.
\<close>

fun runLoop ::
  "nat \<Rightarrow> nat \<Rightarrow> 'w Runtime \<Rightarrow> (string \<times> WorkflowDefinition) list \<Rightarrow> WorkflowStep list
     \<Rightarrow> string option \<Rightarrow> WorkflowExecution \<Rightarrow> Sys \<Rightarrow> 'w \<Rightarrow> (WorkflowExecution \<times> Sys \<times> 'w) option" where
  "runLoop 0 depth rt wfs ss currentStepId execution sy w = None"
| "runLoop (Suc fuel) depth rt wfs ss currentStepId execution sy w =
     (if truthyId currentStepId \<and> exec_status execution = WfRunning
      then
        (case stepMapGet ss (the currentStepId) of
           None \<Rightarrow> Some (execution, sy, w)
         | Some step \<Rightarrow>
             (let ex1 = execution\<lparr>currentStep := currentStepId\<rparr>;
                  sy1 = logger_debug plannerName (''Executing step: '' @ step_name step) sy
              in case executeStep depth rt wfs step ex1 sy1 w of
                   None \<Rightarrow> None
                 | Some (outcome, ctx, sy2, w2) \<Rightarrow>
                     (case afterStep rt step outcome (ex1\<lparr>exec_context := ctx\<rparr>) sy2 of
                        (ex2, sy3, None) \<Rightarrow> Some (ex2, sy3, w2)
                      | (ex2, sy3, Some nextId) \<Rightarrow>
                          runLoop fuel depth rt wfs ss nextId ex2 sy3 w2)))
      else Some (execution, sy, w))"

text \<open>
  The agent's state: its workflow definitions, its execution records and the ids of the
  executions it counts as running. The records in \<open>executions\<close> are the objects the step
  loops work on.
\<close>

record WorkflowPlanner =
  workflows :: "(string \<times> WorkflowDefinition) list"
  executions :: "(string \<times> WorkflowExecution) list"
  runningExecutions :: "string list"

text \<open>
  \<open>runWorkflow\<close>: the loop from the first step's id, then the lines after it. The result
  is the execution, the set \<open>runningExecutions\<close>, the shared services and the world.
\<close>

definition firstStepId :: "WorkflowDefinition \<Rightarrow> string option" where
  "firstStepId workflow = (case steps workflow of [] \<Rightarrow> None | s # _ \<Rightarrow> Some (step_id s))"

definition runWorkflow ::
  "nat \<Rightarrow> nat \<Rightarrow> 'w Runtime \<Rightarrow> nat \<Rightarrow> (string \<times> WorkflowDefinition) list \<Rightarrow> string list
     \<Rightarrow> WorkflowDefinition \<Rightarrow> WorkflowExecution \<Rightarrow> Sys \<Rightarrow> 'w
     \<Rightarrow> (WorkflowExecution \<times> string list \<times> Sys \<times> 'w) option" where
  "runWorkflow fuel depth rt now wfs running workflow execution sy w =
     (case runLoop fuel depth rt wfs (steps workflow) (firstStepId workflow) execution sy w of
        None \<Rightarrow> None
      | Some (ex1, sy1, w1) \<Rightarrow>
          (let finished = (exec_status ex1 = WfRunning);
               ex2 = (if finished then ex1\<lparr>exec_status := WfCompleted\<rparr> else ex1);
               sy2 = (if finished then emitEvent (WorkflowCompletedEv (wf_id workflow) (exec_id ex1)) sy1
                      else sy1);
               ex3 = ex2\<lparr>endTime := Some now\<rparr>
           in Some (ex3, removeAll (exec_id ex3) running,
                    logger_info plannerName
                      (''Workflow '' @
                       (case exec_status ex3 of
                          WfPending \<Rightarrow> ''pending'' | WfRunning \<Rightarrow> ''running''
                        | WfCompleted \<Rightarrow> ''completed'' | WfFailed \<Rightarrow> ''failed''
                        | WfPaused \<Rightarrow> ''paused'')
                       @ '': '' @ wf_name workflow) sy2,
                    w1)))"

text \<open>
  The execution record \<open>executeWorkflow\<close> creates before it launches \<open>runWorkflow\<close>;
  \<open>newId\<close> is the value of \<open>uuidv4()\<close>.
\<close>

definition newExecution ::
  "string \<Rightarrow> nat \<Rightarrow> WorkflowDefinition \<Rightarrow> (string \<times> jsval) list \<Rightarrow> WorkflowExecution" where
  "newExecution newId now workflow ctx =
     \<lparr>exec_id = newId, workflowId = wf_id workflow, exec_status = WfRunning,
      currentStep = firstStepId workflow, exec_startTime = now, endTime = None,
      exec_context = ctx, exec_results = [], exec_errors = []\<rparr>"

text \<open>
  \<open>cancelExecution\<close>. The record in \<open>executions\<close> is the object a running step loop
  holds, so the loop sees the change at its next test.
\<close>

definition cancelExecution ::
  "nat \<Rightarrow> string \<Rightarrow> WorkflowPlanner \<Rightarrow> Sys \<Rightarrow> bool \<times> WorkflowPlanner \<times> Sys" where
  "cancelExecution now executionId this sy =
     (case map_of (executions this) executionId of
        None \<Rightarrow> (False, this, sy)
      | Some execution \<Rightarrow>
          if exec_status execution \<noteq> WfRunning then (False, this, sy)
          else
            (True,
             this\<lparr>executions :=
                    mapSet executionId
                      (execution\<lparr>exec_status := WfFailed,
                                 exec_errors := exec_errors execution @ [''Cancelled by user''],
                                 endTime := Some now\<rparr>)
                      (executions this),
                  runningExecutions := removeAll executionId (runningExecutions this)\<rparr>,
             logger_info plannerName (''Cancelled execution: '' @ executionId) sy))"

text \<open>The built-in workflow \<open>git-operations\<close> of \<open>loadBuiltInWorkflows\<close>.\<close>

definition gitOperations :: WorkflowDefinition where
  "gitOperations =
     \<lparr>wf_id = ''git-operations'', wf_name = ''Git Operations Workflow'',
      wf_description = ''Automated git operations'', wf_version = ''1.0.0'',
      wf_attached = True, wf_enabled = True,
      steps =
        [\<lparr>step_id = ''status'', step_name = ''Check Status'', step_type = ToolStep,
          config = [(''toolId'', JStr ''git-status'')], step_next = NextId ''check'',
          condition = None\<rparr>,
         \<lparr>step_id = ''check'', step_name = ''Check for Changes'', step_type = ConditionStep,
          config = [(''condition'', JStr ''context.status.length > 0'')],
          step_next = NextIds [''diff'', ''done''], condition = None\<rparr>,
         \<lparr>step_id = ''diff'', step_name = ''Get Diff'', step_type = ToolStep,
          config = [(''toolId'', JStr ''git-diff'')], step_next = NextId ''done'',
          condition = None\<rparr>,
         \<lparr>step_id = ''done'', step_name = ''Complete'', step_type = FunctionStep,
          config = [(''functionId'', JStr ''object-merge'')], step_next = NextAbsent,
          condition = None\<rparr>]\<rparr>"

section \<open>Example agents and tables\<close>

text \<open>Concrete agents, with hooks that succeed or fail as the two flags say, and small
  registration tables; the examples below are evaluated on them.\<close>

definition sys0 :: Sys where
  "sys0 = \<lparr>logged = [], emitted = []\<rparr>"

definition mkAgent :: "string \<Rightarrow> string \<Rightarrow> AgentStatus \<Rightarrow> bool \<Rightarrow> bool \<Rightarrow> unit BaseAgent" where
  "mkAgent i n st initOk shutOk =
     \<lparr>agent_id = i, agent_name = n, agent_status = st, startTime = None, sub = (),
      initialize = (\<lambda>s. (if initOk then None else Some ''initialize failed'', s)),
      shutdown = (\<lambda>s. (if shutOk then None else Some ''shutdown failed'', s))\<rparr>"

definition mkInfo :: "unit BaseAgent \<Rightarrow> bool \<Rightarrow> int \<Rightarrow> string \<times> unit SubAgentInfo" where
  "mkInfo a att p = (agent_id a, \<lparr>agent = a, attached = att, priority = p\<rparr>)"

definition demoTable :: "unit SubAgents" where
  "demoTable =
     [mkInfo (mkAgent ''y'' ''Y'' AgentIdle True True) True 1,
      mkInfo (mkAgent ''x'' ''X'' AgentIdle False True) True 10,
      mkInfo (mkAgent ''z'' ''Z'' AgentIdle True False) False 7]"

definition tiedTable :: "unit SubAgents" where
  "tiedTable =
     [mkInfo (mkAgent ''o'' ''ObservabilityAgent'' AgentIdle True True) True 10,
      mkInfo (mkAgent ''s'' ''SecurityAgent'' AgentIdle True True) True 10]"

definition routeTable :: "unit SubAgents" where
  "routeTable =
     [mkInfo (mkAgent ''t'' ''ToolsManagerAgent'' AgentIdle True True) True 8,
      mkInfo (mkAgent ''m'' ''MemoryAgent'' AgentRunning True True) False 7,
      mkInfo (mkAgent ''k'' ''KnowledgeAgent'' AgentRunning True True) True 7]"

text \<open>Planner-task stores: a dependency chain with a completed task, a two-task cycle, and a
  store whose only task is completed.\<close>

definition mkTask :: "string \<Rightarrow> string list \<Rightarrow> TodoStatus \<Rightarrow> string \<times> PlannerTask" where
  "mkTask i deps st =
     (i, \<lparr>task_id = i, task_name = i, task_kind = TypeCode, files = [], dependencies = deps,
          estimatedTime = None, actualTime = None, task_status = st,
          task_priority = PriorityMedium\<rparr>)"

definition chainStore :: TaskStore where
  "chainStore =
     [mkTask ''c'' [''b''] TodoPending,
      mkTask ''a'' [] TodoPending,
      mkTask ''b'' [''a'', ''z''] TodoPending,
      mkTask ''d'' [''c''] TodoCompleted]"

definition cycleStore :: TaskStore where
  "cycleStore =
     [mkTask ''a'' [''b''] TodoPending,
      mkTask ''b'' [''a''] TodoPending,
      mkTask ''c'' [] TodoPending]"

definition doneStore :: TaskStore where
  "doneStore = [mkTask ''a'' [] TodoCompleted]"

text \<open>A response and an error envelope answering the request \<open>r1\<close> of the agent \<open>me\<close>.\<close>

definition ghostResponse :: AgentMessage where
  "ghostResponse =
     \<lparr>msg_id = ''m1'', msg_from = ''ghost'', msg_to = ''me'', msg_type = MsgResponse,
      msg_content = JObj [(''requestId'', JStr ''r1''), (''data'', JNum 7)]\<rparr>"

definition ghostError :: AgentMessage where
  "ghostError =
     \<lparr>msg_id = ''m2'', msg_from = ''ghost'', msg_to = ''me'', msg_type = MsgError,
      msg_content = JObj [(''requestId'', JStr ''r1''), (''error'', JStr ''boom'')]\<rparr>"

text \<open>
  A JavaScript runtime for the examples. \<open>evalBody\<close> gives the value of the two function
  bodies the examples evaluate, \<open>return true\<close> and
  \<open>return context.status.length > 0\<close>, the latter on a context whose \<open>status\<close> is a
  string or an array (a missing \<open>status\<close> makes it throw); for no other body or context
  is it meant to agree with JavaScript. Requests for the tool \<open>failing-tool\<close> are rejected, all
  others are answered with \<open>"ok"\<close>.
\<close>

definition evalBody :: "string \<Rightarrow> (string \<times> jsval) list \<Rightarrow> (string \<times> jsval) list \<Rightarrow> jsval option" where
  "evalBody body ctx res =
     (if body = ''return true'' then Some (JBool True)
      else if body = ''return context.status.length > 0''
      then (case map_of ctx ''status'' of
              Some (JStr s) \<Rightarrow> Some (JBool (0 < length s))
            | Some (JArr xs) \<Rightarrow> Some (JBool (0 < length xs))
            | _ \<Rightarrow> None)
      else None)"

definition demoRuntime :: "unit Runtime" where
  "demoRuntime =
     \<lparr>jsFunction = evalBody,
      awaitRequest =
        (\<lambda>w to content'.
           (if getProp [] content' ''toolId'' = JStr ''failing-tool'' then Inl ''tool failed''
            else Inr (JStr ''ok''), w))\<rparr>"

text \<open>A workflow \<open>A \<rightarrow> B \<rightarrow> C\<close> whose middle step asks for the failing tool, and an agent
  state holding one running and one completed execution of it.\<close>

definition mkStep :: "string \<Rightarrow> StepType \<Rightarrow> (string \<times> jsval) list \<Rightarrow> StepNext \<Rightarrow> WorkflowStep" where
  "mkStep i ty c n =
     \<lparr>step_id = i, step_name = i, step_type = ty, config = c, step_next = n, condition = None\<rparr>"

definition abcWorkflow :: WorkflowDefinition where
  "abcWorkflow =
     \<lparr>wf_id = ''w'', wf_name = ''W'', wf_description = [], wf_version = ''1'',
      wf_attached = True, wf_enabled = True,
      steps = [mkStep ''A'' AgentStep [(''task'', JStr ''a'')] (NextId ''B''),
               mkStep ''B'' ToolStep [(''toolId'', JStr ''failing-tool'')] (NextId ''C''),
               mkStep ''C'' AgentStep [(''task'', JStr ''c'')] NextAbsent]\<rparr>"

definition demoPlanner :: WorkflowPlanner where
  "demoPlanner =
     \<lparr>workflows = [(''w'', abcWorkflow)],
      executions =
        [(''e1'', newExecution ''e1'' 0 abcWorkflow []),
         (''e2'', (newExecution ''e2'' 0 abcWorkflow [])\<lparr>exec_status := WfCompleted\<rparr>)],
      runningExecutions = [''e1'']\<rparr>"

section \<open>Properties of the agent runtime and the orchestrator\<close>

lemma map_of_mapSet: "map_of (mapSet k v ps) k' = (if k' = k then Some v else map_of ps k')"
  by (induction ps) auto

lemma mapSet_member: "(k, v) \<in> set (mapSet k v ps)"
  by (induction ps) auto

lemma mapSet_keys_set: "fst ` set (mapSet k v ps) = insert k (fst ` set ps)"
  by (induction ps) auto

lemma mapSet_keys_distinct: "distinct (map fst ps) \<Longrightarrow> distinct (map fst (mapSet k v ps))"
  by (induction ps) (auto simp: mapSet_keys_set)

lemma stop_never_throws: "fst (stop a sy) = None"
  by (auto simp: stop_def Let_def split: prod.splits option.splits)

lemma startOrder_sorted: "sorted (rev (map (\<lambda>p. priority (snd p)) (startOrder tbl)))"
proof -
  have "sorted (map (\<lambda>p. - priority (snd p)) (startOrder tbl))"
    by (simp add: startOrder_def)
  then have "sorted (map uminus (map (\<lambda>p. priority (snd p)) (startOrder tbl)))"
    by (simp add: comp_def)
  then show ?thesis
    by (simp add: sorted_wrt_rev sorted_wrt_map)
qed

lemma stopOrder_rev_startOrder:
  assumes d: "distinct (map (\<lambda>p. priority (snd p)) tbl)"
    and att: "list_all (\<lambda>p. attached (snd p)) tbl"
  shows "stopOrder tbl = rev (startOrder tbl)"
proof -
  let ?f = "\<lambda>p. priority (snd p)"
  have flt: "filter (\<lambda>p. attached (snd p)) tbl = tbl"
    using att by (simp add: list_all_iff)
  have so: "startOrder tbl = sort_key (\<lambda>p. - ?f p) tbl"
    by (simp add: startOrder_def flt)
  have inj: "inj_on ?f (set tbl)" and dt: "distinct tbl"
    using d by (auto simp: distinct_map)
  have s1: "sorted (map ?f (stopOrder tbl))" by (simp add: stopOrder_def)
  have s2: "sorted (map ?f (rev (startOrder tbl)))"
    using startOrder_sorted [of tbl] by (simp add: rev_map)
  have d1: "distinct (map ?f (stopOrder tbl))"
    using inj dt by (simp add: distinct_map stopOrder_def)
  have d2: "distinct (map ?f (rev (startOrder tbl)))"
    using inj dt by (simp add: distinct_map so)
  have st: "set (map ?f (stopOrder tbl)) = set (map ?f (rev (startOrder tbl)))"
    by (simp add: stopOrder_def so)
  have eq: "map ?f (stopOrder tbl) = map ?f (rev (startOrder tbl))"
    using sorted_distinct_set_unique [OF s1 d1 s2 d2 st] .
  have inj2: "inj_on ?f (set (stopOrder tbl) \<union> set (rev (startOrder tbl)))"
    using inj by (simp add: stopOrder_def so)
  show ?thesis
    using inj_on_map_eq_map [OF inj2] eq by blast
qed

text \<open>What \<open>stop\<close> does in each of its three cases.\<close>

lemma stop_cases:
  "(agent_status a = AgentStopped \<longrightarrow>
      stop a sy = (None, a, logger_warn (agent_name a) ''Agent is already stopped'' sy))
   \<and> (agent_status a \<noteq> AgentStopped \<and> fst (shutdown a (sub a)) = None \<longrightarrow>
        fst (stop a sy) = None
        \<and> agent_status (fst (snd (stop a sy))) = AgentStopped
        \<and> emitted (snd (snd (stop a sy))) = emitted sy @ [AgentStoppedEv (agent_id a)])
   \<and> (agent_status a \<noteq> AgentStopped \<and> fst (shutdown a (sub a)) = Some msg \<longrightarrow>
        fst (stop a sy) = None
        \<and> agent_status (fst (snd (stop a sy))) = agent_status a
        \<and> emitted (snd (snd (stop a sy))) = emitted sy
        \<and> logged (snd (snd (stop a sy))) =
            logged sy @ [(Info, agent_name a, ''Stopping agent...''),
                         (Error, agent_name a, ''Error stopping agent: '' @ msg)])"
  by (auto simp: stop_def Let_def emitEvent_def logger_info_def logger_error_def
           split: prod.splits option.splits)

text \<open>
  Claim C3, evaluated on a Running agent whose \<open>shutdown\<close> hook throws: after
  \<open>stop()\<close> the agent is not Stopped and no stopped event has been emitted, where the claim
  has it Stopped, with the event, whatever the hook does.
\<close>

theorem stop_failed_hook_counterexample:
  "agent_status (fst (snd (stop (mkAgent ''a1'' ''A'' AgentRunning True False) sys0))) \<noteq> AgentStopped
   \<and> AgentStoppedEv ''a1'' \<notin> set (emitted (snd (snd (stop (mkAgent ''a1'' ''A'' AgentRunning True False) sys0))))"
  by (simp add: stop_def mkAgent_def sys0_def Let_def logger_info_def logger_error_def)

text \<open>
  Claim C10: \<open>registerAgent(agent, priority)\<close> stores, under the agent's id, a record with
  \<open>attached = true\<close> and the given priority (5 when omitted), replacing any record that
  was there; the agent is then part of the start sweep and the stop sweep and a task that
  names its id is forwarded to it; other registrations are untouched.
\<close>

theorem registerAgent_attached:
  "map_of (fst (registerAgent a popt tbl sy)) (agent_id a) =
     Some \<lparr>agent = a, attached = True, priority = (case popt of None \<Rightarrow> 5 | Some q \<Rightarrow> q)\<rparr>
   \<and> (agent_id a, \<lparr>agent = a, attached = True, priority = (case popt of None \<Rightarrow> 5 | Some q \<Rightarrow> q)\<rparr>)
        \<in> set (startOrder (fst (registerAgent a popt tbl sy)))
   \<and> (agent_id a, \<lparr>agent = a, attached = True, priority = (case popt of None \<Rightarrow> 5 | Some q \<Rightarrow> q)\<rparr>)
        \<in> set (stopOrder (fst (registerAgent a popt tbl sy)))
   \<and> (agent_id a \<noteq> [] \<longrightarrow>
        processTask \<lparr>task_type = ty, task_agentId = Some (agent_id a), task_data = d\<rparr>
          (fst (registerAgent a popt tbl sy)) = Forward (agent_id a) d)
   \<and> (\<forall>k. k \<noteq> agent_id a \<longrightarrow> map_of (fst (registerAgent a popt tbl sy)) k = map_of tbl k)
   \<and> (distinct (map fst tbl) \<longrightarrow> distinct (map fst (fst (registerAgent a popt tbl sy))))"
  by (simp add: registerAgent_def Let_def map_of_mapSet mapSet_member mapSet_keys_distinct
        startOrder_def stopOrder_def processTask_def truthyStr_def)

text \<open>C10 on a re-registration: an id registered detached at priority 1 is registered again at 9.\<close>

theorem registerAgent_attached_witness:
  "map_of (fst (registerAgent (mkAgent ''a1'' ''A'' AgentIdle True True) (Some 9)
                  [mkInfo (mkAgent ''a1'' ''A'' AgentIdle True True) False 1] sys0)) ''a1'' =
     Some \<lparr>agent = mkAgent ''a1'' ''A'' AgentIdle True True, attached = True, priority = 9\<rparr>
   \<and> processTask \<lparr>task_type = None, task_agentId = Some ''a1'', task_data = (0::nat)\<rparr>
        (fst (registerAgent (mkAgent ''a1'' ''A'' AgentIdle True True) (Some 9)
                  [mkInfo (mkAgent ''a1'' ''A'' AgentIdle True True) False 1] sys0)) = Forward ''a1'' 0"
proof -
  have i: "agent_id (mkAgent ''a1'' ''A'' AgentIdle True True) = ''a1''"
    by (simp add: mkAgent_def)
  have ne: "agent_id (mkAgent ''a1'' ''A'' AgentIdle True True) \<noteq> []"
    by (simp add: mkAgent_def)
  show ?thesis
    using registerAgent_attached [of "mkAgent ''a1'' ''A'' AgentIdle True True" "Some 9"
            "[mkInfo (mkAgent ''a1'' ''A'' AgentIdle True True) False 1]" sys0 None "0::nat"] ne
    by (simp add: i)
qed

lemma agentNameFor_nonempty: "agentNameFor ty = Some n \<Longrightarrow> n \<noteq> []"
proof -
  assume "agentNameFor ty = Some n"
  then have "map_of typeToAgent (the ty) = Some n"
    by (simp add: agentNameFor_def split: if_splits)
  then have "(the ty, n) \<in> set typeToAgent"
    by (rule map_of_SomeD)
  then show "n \<noteq> []"
    by (auto simp: typeToAgent_def)
qed

lemma routeTask_find:
  "routeTask ty tbl =
     (case find (\<lambda>info. attached info \<and> agentNameFor ty = Some (agent_name (agent info)))
             (map snd tbl) of
        Some info \<Rightarrow> Some info
      | None \<Rightarrow>
          find (\<lambda>info. attached info \<and> agent_status (agent info) = AgentRunning) (map snd tbl))"
proof (cases "agentNameFor ty")
  case None
  have "find (\<lambda>info::'a SubAgentInfo. False) (map snd tbl) = None"
    by (simp add: find_None_iff)
  then show ?thesis
    using None by (simp add: routeTask_def)
next
  case (Some n)
  have ne: "n \<noteq> []" using Some by (rule agentNameFor_nonempty)
  have f: "(\<lambda>info::'a SubAgentInfo. attached info \<and> n = agent_name (agent info))
             = (\<lambda>info. agent_name (agent info) = n \<and> attached info)"
    by auto
  show ?thesis
    using Some ne by (simp add: routeTask_def f)
qed

text \<open>
  Claim C7: a task that names a target agent id is forwarded to it exactly when that id is
  registered and attached, and fails with "not found or not attached" otherwise. A task
  without a target goes to the first attached agent whose name the category table gives
  for the task's type; when there is none, to the first attached agent that is Running;
  when there is none either, it fails with "No suitable agent found for task".
\<close>

theorem processTask_routing:
  "(truthyStr (task_agentId task)
      \<and> (\<exists>info. map_of tbl (the (task_agentId task)) = Some info \<and> attached info) \<longrightarrow>
        processTask task tbl = Forward (the (task_agentId task)) (task_data task))
   \<and> (truthyStr (task_agentId task)
      \<and> \<not> (\<exists>info. map_of tbl (the (task_agentId task)) = Some info \<and> attached info) \<longrightarrow>
        processTask task tbl =
          Fail (''Agent '' @ the (task_agentId task) @ '' not found or not attached''))
   \<and> (\<not> truthyStr (task_agentId task) \<longrightarrow>
        processTask task tbl =
          (case find (\<lambda>info. attached info
                        \<and> agentNameFor (task_type task) = Some (agent_name (agent info)))
                  (map snd tbl) of
             Some info \<Rightarrow> Forward (agent_id (agent info)) (task_data task)
           | None \<Rightarrow>
               (case find (\<lambda>info. attached info \<and> agent_status (agent info) = AgentRunning)
                       (map snd tbl) of
                  Some info \<Rightarrow> Forward (agent_id (agent info)) (task_data task)
                | None \<Rightarrow> Fail ''No suitable agent found for task'')))"
proof -
  let ?P1 = "\<lambda>info. attached info \<and> agentNameFor (task_type task) = Some (agent_name (agent info))"
  let ?P2 = "\<lambda>info. attached info \<and> agent_status (agent info) = AgentRunning"
  have r: "routeTask (task_type task) tbl =
             (case find ?P1 (map snd tbl) of Some info \<Rightarrow> Some info | None \<Rightarrow> find ?P2 (map snd tbl))"
    by (rule routeTask_find)
  show ?thesis
    unfolding processTask_def r
    by (auto simp: Let_def split: option.splits)
qed

text \<open>The five routing outcomes of C7 on a concrete table.\<close>

theorem processTask_routing_witness:
  "processTask \<lparr>task_type = None, task_agentId = Some ''t'', task_data = (1::nat)\<rparr> routeTable
     = Forward ''t'' 1
   \<and> processTask \<lparr>task_type = None, task_agentId = Some ''m'', task_data = (1::nat)\<rparr> routeTable
     = Fail ''Agent m not found or not attached''
   \<and> processTask \<lparr>task_type = Some ''tool'', task_agentId = None, task_data = (1::nat)\<rparr> routeTable
     = Forward ''t'' 1
   \<and> processTask \<lparr>task_type = Some ''memory'', task_agentId = None, task_data = (1::nat)\<rparr> routeTable
     = Forward ''k'' 1
   \<and> processTask \<lparr>task_type = Some ''memory'', task_agentId = None, task_data = (1::nat)\<rparr>
        (take 2 routeTable)
     = Fail ''No suitable agent found for task''"
  using processTask_routing [of "\<lparr>task_type = None, task_agentId = Some ''t'', task_data = (1::nat)\<rparr>" routeTable]
        processTask_routing [of "\<lparr>task_type = None, task_agentId = Some ''m'', task_data = (1::nat)\<rparr>" routeTable]
        processTask_routing [of "\<lparr>task_type = Some ''tool'', task_agentId = None, task_data = (1::nat)\<rparr>" routeTable]
        processTask_routing [of "\<lparr>task_type = Some ''memory'', task_agentId = None, task_data = (1::nat)\<rparr>" routeTable]
        processTask_routing [of "\<lparr>task_type = Some ''memory'', task_agentId = None, task_data = (1::nat)\<rparr>" "take 2 routeTable"]
  by (simp add: truthyStr_def routeTable_def mkInfo_def mkAgent_def agentNameFor_def typeToAgent_def)

lemma startOrder_stable:
  "filter (\<lambda>p. priority (snd p) = k) (startOrder tbl)
     = filter (\<lambda>p. priority (snd p) = k) (filter (\<lambda>p. attached (snd p)) tbl)"
proof -
  have e: "(\<lambda>p :: string \<times> 'a SubAgentInfo. priority (snd p) = k)
             = (\<lambda>p. - priority (snd p) = - k)"
    by auto
  show ?thesis
    unfolding startOrder_def e by (rule sort_key_stable)
qed

lemma stopOrder_stable:
  "filter (\<lambda>p. priority (snd p) = k) (stopOrder tbl) = filter (\<lambda>p. priority (snd p) = k) tbl"
  unfolding stopOrder_def by (rule sort_key_stable)

lemma startEach_traced:
  "startEach (traced call) xs tbl sy (w, tr) =
     (case startEach call xs tbl sy w of
        (tbl', sy', w') \<Rightarrow> (tbl', sy', (w', tr @ map fst xs)))"
proof (induction xs arbitrary: tbl sy w tr)
  case Nil
  show ?case by simp
next
  case (Cons p rest)
  obtain r tbl1 sy1 w1 where c: "call p tbl sy w = (r, tbl1, sy1, w1)"
    by (cases "call p tbl sy w") auto
  show ?case
    using c Cons.IH by (cases r) (simp_all add: traced_def)
qed

lemma stopEach_traced:
  "stopEach (traced call) xs tbl sy (w, tr) =
     (case stopEach call xs tbl sy w of
        (tbl', sy', w') \<Rightarrow> (tbl', sy', (w', tr @ map fst xs)))"
proof (induction xs arbitrary: tbl sy w tr)
  case Nil
  show ?case by simp
next
  case (Cons p rest)
  obtain r tbl1 sy1 w1 where c: "call p tbl sy w = (r, tbl1, sy1, w1)"
    by (cases "call p tbl sy w") auto
  show ?case
    using c Cons.IH by (cases r) (simp_all add: traced_def)
qed

lemma startAllAgents_traced:
  "startAllAgents (traced call) tbl sy (w, tr) =
     (case startAllAgents call tbl sy w of
        (tbl', sy', w') \<Rightarrow> (tbl', sy', (w', tr @ map fst (startOrder tbl))))"
  by (simp add: startAllAgents_def Let_def startEach_traced split: prod.splits)

lemma supervisorShutdown_traced:
  "supervisorShutdown (traced call) tbl sy (w, tr) =
     (case supervisorShutdown call tbl sy w of
        (tbl', sy', w') \<Rightarrow> (tbl', sy', (w', tr @ map fst (stopOrder tbl))))"
  by (simp add: supervisorShutdown_def Let_def stopEach_traced split: prod.splits)

text \<open>
  Claim C6 (as the code has it): the array \<open>startAllAgents\<close> walks holds exactly the
  attached registrations, each once, in descending priority order, those of equal priority
  in registration order; \<open>startAllAgents\<close> calls \<open>start()\<close> on its entries in that order,
  once each, whatever a call does or returns, so a failing start does not keep the later
  agents from being started. The supervisor's shutdown calls \<open>stop()\<close> in the same way on
  all registrations in ascending priority order, those of equal priority again in
  registration order, and leaves the table empty. The stop order is the reverse of the
  start order when all registrations are attached and their priorities are pairwise
  distinct.
\<close>

theorem sweep_order:
  "mset (startOrder tbl) = mset (filter (\<lambda>p. attached (snd p)) tbl)
   \<and> sorted (rev (map (\<lambda>p. priority (snd p)) (startOrder tbl)))
   \<and> (\<forall>k. filter (\<lambda>p. priority (snd p) = k) (startOrder tbl)
            = filter (\<lambda>p. priority (snd p) = k) (filter (\<lambda>p. attached (snd p)) tbl))
   \<and> startAllAgents (traced awaitStart) tbl sy (w, tr) =
       (case startAllAgents awaitStart tbl sy w of
          (tbl', sy', w') \<Rightarrow> (tbl', sy', (w', tr @ map fst (startOrder tbl))))
   \<and> mset (stopOrder tbl) = mset tbl
   \<and> sorted (map (\<lambda>p. priority (snd p)) (stopOrder tbl))
   \<and> (\<forall>k. filter (\<lambda>p. priority (snd p) = k) (stopOrder tbl)
            = filter (\<lambda>p. priority (snd p) = k) tbl)
   \<and> supervisorShutdown (traced awaitStop) tbl sy (w, tr) =
       (case supervisorShutdown awaitStop tbl sy w of
          (tbl', sy', w') \<Rightarrow> (tbl', sy', (w', tr @ map fst (stopOrder tbl))))
   \<and> fst (supervisorShutdown awaitStop tbl sy w) = []
   \<and> (distinct (map (\<lambda>p. priority (snd p)) tbl) \<and> list_all (\<lambda>p. attached (snd p)) tbl \<longrightarrow>
        stopOrder tbl = rev (startOrder tbl))"
proof -
  have c1: "mset (startOrder tbl) = mset (filter (\<lambda>p. attached (snd p)) tbl)"
    by (simp add: startOrder_def)
  have c3: "\<forall>k. filter (\<lambda>p. priority (snd p) = k) (startOrder tbl)
            = filter (\<lambda>p. priority (snd p) = k) (filter (\<lambda>p. attached (snd p)) tbl)"
    using startOrder_stable by blast
  have c5: "mset (stopOrder tbl) = mset tbl"
    by (simp add: stopOrder_def)
  have c6: "sorted (map (\<lambda>p. priority (snd p)) (stopOrder tbl))"
    by (simp add: stopOrder_def)
  have c7: "\<forall>k. filter (\<lambda>p. priority (snd p) = k) (stopOrder tbl)
            = filter (\<lambda>p. priority (snd p) = k) tbl"
    using stopOrder_stable by blast
  have c9: "fst (supervisorShutdown awaitStop tbl sy w) = []"
    by (simp add: supervisorShutdown_def Let_def split: prod.splits)
  have c10: "distinct (map (\<lambda>p. priority (snd p)) tbl) \<and> list_all (\<lambda>p. attached (snd p)) tbl \<longrightarrow>
        stopOrder tbl = rev (startOrder tbl)"
    using stopOrder_rev_startOrder by blast
  show ?thesis
    using c1 startOrder_sorted [of tbl] c3 startAllAgents_traced [of awaitStart tbl sy w tr]
      c5 c6 c7 supervisorShutdown_traced [of awaitStop tbl sy w tr] c9 c10
    by (intro conjI)
qed

text \<open>
  C6 on a table whose highest-priority agent \<open>x\<close> fails to start and whose detached agent
  \<open>z\<close> fails to stop, with no subscriber on the bus.
\<close>

theorem sweep_order_witness:
  "snd (snd (startAllAgents (traced (startAlone 0)) demoTable sys0 ((), [])))
     = ((), [''x'', ''y''])
   \<and> fst (startAlone 0 (mkInfo (mkAgent ''x'' ''X'' AgentIdle False True) True 10)
            demoTable sys0 ()) = Some ''initialize failed''
   \<and> snd (snd (supervisorShutdown (traced stopAlone) demoTable sys0 ((), [])))
     = ((), [''y'', ''z'', ''x''])
   \<and> fst (supervisorShutdown stopAlone demoTable sys0 ()) = []
   \<and> stopOrder (take 2 demoTable) = rev (startOrder (take 2 demoTable))"
proof -
  note S = sweep_order [of demoTable "startAlone 0" sys0 "()" "[]" stopAlone]
  note T = sweep_order [of "take 2 demoTable" "startAlone 0" sys0 "()" "[]" stopAlone]
  have h: "distinct (map (\<lambda>p. priority (snd p)) (take 2 demoTable))
           \<and> list_all (\<lambda>p. attached (snd p)) (take 2 demoTable)"
    by (simp add: demoTable_def mkInfo_def)
  have so: "map fst (startOrder demoTable) = [''x'', ''y'']"
    by (simp add: startOrder_def demoTable_def mkInfo_def mkAgent_def)
  have st: "map fst (stopOrder demoTable) = [''y'', ''z'', ''x'']"
    by (simp add: stopOrder_def demoTable_def mkInfo_def mkAgent_def)
  have e1: "snd (snd (startAllAgents (traced (startAlone 0)) demoTable sys0 ((), [])))
              = ((), [''x'', ''y''])"
    using S [THEN conjunct2, THEN conjunct2, THEN conjunct2, THEN conjunct1]
    by (simp add: so split: prod.splits)
  have e2: "fst (startAlone 0 (mkInfo (mkAgent ''x'' ''X'' AgentIdle False True) True 10)
            demoTable sys0 ()) = Some ''initialize failed''"
    by (simp add: startAlone_def start_def mkInfo_def mkAgent_def Let_def)
  have e3: "snd (snd (supervisorShutdown (traced stopAlone) demoTable sys0 ((), [])))
              = ((), [''y'', ''z'', ''x''])"
    using S [THEN conjunct2, THEN conjunct2, THEN conjunct2, THEN conjunct2, THEN conjunct2,
             THEN conjunct2, THEN conjunct2, THEN conjunct1]
    by (simp add: st split: prod.splits)
  have e4: "fst (supervisorShutdown stopAlone demoTable sys0 ()) = []"
    using S [THEN conjunct2, THEN conjunct2, THEN conjunct2, THEN conjunct2, THEN conjunct2,
             THEN conjunct2, THEN conjunct2, THEN conjunct2, THEN conjunct1] .
  have e5: "stopOrder (take 2 demoTable) = rev (startOrder (take 2 demoTable))"
    using T [THEN conjunct2, THEN conjunct2, THEN conjunct2, THEN conjunct2, THEN conjunct2,
             THEN conjunct2, THEN conjunct2, THEN conjunct2, THEN conjunct2] h
    by blast
  show ?thesis
    using e1 e2 e3 e4 e5 by (intro conjI)
qed

text \<open>
  C6 as stated calls the stop order the reverse of the start order. The sort is stable, so
  two agents registered at the same priority are started and stopped in the same
  (registration) order.
\<close>

theorem stop_not_reverse_counterexample:
  "map fst (stopOrder tiedTable) = [''o'', ''s'']
   \<and> map fst (startOrder tiedTable) = [''o'', ''s'']
   \<and> stopOrder tiedTable \<noteq> rev (startOrder tiedTable)"
  by (simp add: startOrder_def stopOrder_def tiedTable_def mkInfo_def mkAgent_def)

section \<open>Properties of the dependency scheduler\<close>

lemma foldl_setAdd_distinct:
  "distinct (acc @ xs) \<Longrightarrow> foldl (\<lambda>s x. setAdd x s) acc xs = acc @ xs"
  by (induction xs arbitrary: acc) (auto simp: setAdd_def)

lemma setFromList_distinct: "distinct xs \<Longrightarrow> setFromList xs = xs"
  using foldl_setAdd_distinct [of "[]" xs] by (simp add: setFromList_def)

lemma storeOk_ids: "storeOk tasks \<Longrightarrow> map task_id (map snd tasks) = map fst tasks"
  by (induction tasks) (auto simp: storeOk_def)

lemma storeOk_pendingIds:
  assumes ok: "storeOk tasks"
  shows "pendingIds tasks = map task_id (filter (\<lambda>t. task_status t = TodoPending) (map snd tasks))"
    and "distinct (pendingIds tasks)"
    and "length (pendingIds tasks) = length (filter (\<lambda>t. task_status t = TodoPending) (map snd tasks))"
proof -
  have d: "distinct (map task_id (map snd tasks))"
    unfolding storeOk_ids [OF ok] using ok by (simp add: storeOk_def)
  have d': "distinct (map task_id (filter (\<lambda>t. task_status t = TodoPending) (map snd tasks)))"
    using d by (rule distinct_map_filter)
  show e: "pendingIds tasks = map task_id (filter (\<lambda>t. task_status t = TodoPending) (map snd tasks))"
    unfolding pendingIds_def using d' by (rule setFromList_distinct)
  show "distinct (pendingIds tasks)" using d' e by simp
  show "length (pendingIds tasks) = length (filter (\<lambda>t. task_status t = TodoPending) (map snd tasks))"
    using e by simp
qed

lemma storeOk_pendingOk:
  assumes ok: "storeOk tasks"
  shows "pendingOk tasks (pendingIds tasks)"
  unfolding pendingOk_def
proof
  fix k assume "k \<in> set (pendingIds tasks)"
  then obtain t where t: "t \<in> snd ` set tasks" "task_status t = TodoPending" "task_id t = k"
    using storeOk_pendingIds(1) [OF ok] by auto
  then obtain k' where k': "(k', t) \<in> set tasks" by force
  have "task_id t = k'"
    using ok k' by (auto simp: storeOk_def list_all_iff)
  then have "(k, t) \<in> set tasks" using k' t by simp
  moreover have "distinct (map fst tasks)" using ok by (simp add: storeOk_def)
  ultimately have "map_of tasks k = Some t" by (simp add: map_of_is_SomeI)
  then show "\<exists>t. map_of tasks k = Some t \<and> task_status t = TodoPending \<and> task_id t = k"
    using t by blast
qed

lemma depsComplete_iff:
  assumes "\<forall>k \<in> set p. \<exists>t. map_of tasks k = Some t \<and> task_status t = TodoPending"
  shows "depsComplete tasks p task = (set (dependencies task) \<inter> set p = {})"
proof -
  have "\<And>d. d \<in> set p \<Longrightarrow> \<not> depDone tasks d"
    using assms by (auto simp: depDone_def)
  then show ?thesis
    by (auto simp: depsComplete_def list_all_iff)
qed

lemma ordered_snoc:
  "ordered (s @ [t]) =
     (ordered s \<and> (\<forall>u \<in> set s. task_id t \<notin> set (dependencies u))
      \<and> task_id t \<notin> set (dependencies t))"
  by (induction s) auto

lemma schedInv_step:
  assumes K: "pendingOk tasks P0" and inv: "schedInv tasks P0 p s"
    and kin: "k \<in> set p" and mt: "map_of tasks k = Some t" and rdy: "depsComplete tasks p t"
  shows "schedInv tasks P0 (removeAll k p) (s @ [t])"
proof -
  have sub: "set p \<subseteq> set P0" using inv by (auto simp: schedInv_def)
  have pk: "\<forall>k \<in> set p. \<exists>t. map_of tasks k = Some t \<and> task_status t = TodoPending"
    using K sub by (auto simp: pendingOk_def)
  have "k \<in> set P0" using sub kin by blast
  then obtain t' where "map_of tasks k = Some t'" "task_id t' = k"
    using K unfolding pendingOk_def by blast
  then have id: "task_id t = k"
    using mt by simp
  have dis: "set (dependencies t) \<inter> set p = {}"
    using rdy depsComplete_iff [OF pk] by simp
  have nk: "k \<notin> task_id ` set s"
    using inv kin by (auto simp: schedInv_def)
  have old: "\<forall>u \<in> set s. map_of tasks (task_id u) = Some u \<and> set (dependencies u) \<inter> set p = {}"
    using inv by (simp add: schedInv_def)
  have o1: "\<forall>u \<in> set s. task_id t \<notin> set (dependencies u)"
    using old kin id by auto
  have o2: "task_id t \<notin> set (dependencies t)"
    using dis kin id by auto
  have ord: "ordered (s @ [t])"
    using inv o1 o2 by (simp add: ordered_snoc schedInv_def)
  have d1: "distinct (removeAll k p)" using inv by (simp add: schedInv_def distinct_removeAll)
  have d2: "distinct (map task_id (s @ [t]))" using inv nk id by (simp add: schedInv_def)
  have u: "set (removeAll k p) \<union> task_id ` set (s @ [t]) = set P0"
    using inv kin id by (auto simp: schedInv_def)
  have i: "set (removeAll k p) \<inter> task_id ` set (s @ [t]) = {}"
    using inv id by (auto simp: schedInv_def)
  have a: "\<forall>u \<in> set (s @ [t]). map_of tasks (task_id u) = Some u
             \<and> set (dependencies u) \<inter> set (removeAll k p) = {}"
    using old mt id dis by auto
  show ?thesis
    unfolding schedInv_def using d1 d2 u i a ord by blast
qed

lemma scanPass_inv:
  assumes K: "pendingOk tasks P0"
  shows "schedInv tasks P0 p s \<Longrightarrow> set ks \<subseteq> set p \<Longrightarrow> distinct ks \<Longrightarrow>
         \<exists>p' s' f'. scanPass tasks ks (p, s, f) = Some (p', s', f') \<and> schedInv tasks P0 p' s'"
proof (induction ks arbitrary: p s f)
  case Nil
  then show ?case by simp
next
  case (Cons k ks)
  have kin: "k \<in> set p" using Cons.prems(2) by simp
  have "k \<in> set P0" using Cons.prems(1) kin by (auto simp: schedInv_def)
  then obtain t where mt: "map_of tasks k = Some t"
    using K by (auto simp: pendingOk_def)
  show ?case
  proof (cases "depsComplete tasks p t")
    case True
    have inv': "schedInv tasks P0 (removeAll k p) (s @ [t])"
      using K Cons.prems(1) kin mt True by (rule schedInv_step)
    have sub': "set ks \<subseteq> set (removeAll k p)"
      using Cons.prems(2,3) by auto
    have d': "distinct ks" using Cons.prems(3) by simp
    show ?thesis
      using Cons.IH [OF inv' sub' d', of True] mt True by simp
  next
    case False
    have sub': "set ks \<subseteq> set p" using Cons.prems(2) by simp
    have d': "distinct ks" using Cons.prems(3) by simp
    show ?thesis
      using Cons.IH [OF Cons.prems(1) sub' d', of f] mt False by simp
  qed
qed

lemma scanPass_found_mono:
  "scanPass tasks ks (p, s, True) = Some (p', s', f') \<Longrightarrow> f'"
  by (induction ks arbitrary: p s) (auto split: option.splits if_splits)

lemma scanPass_nothing_found:
  "scanPass tasks ks (p, s, False) = Some (p', s', False) \<Longrightarrow>
     p' = p \<and> s' = s \<and> (\<forall>k \<in> set ks. \<forall>t. map_of tasks k = Some t \<longrightarrow> \<not> depsComplete tasks p t)"
proof (induction ks)
  case Nil
  then show ?case by simp
next
  case (Cons k ks)
  show ?case
  proof (cases "map_of tasks k")
    case None
    then show ?thesis using Cons.prems by simp
  next
    case (Some t)
    show ?thesis
    proof (cases "depsComplete tasks p t")
      case True
      then have "scanPass tasks ks (removeAll k p, s @ [t], True) = Some (p', s', False)"
        using Cons.prems Some by simp
      then have False using scanPass_found_mono by blast
      then show ?thesis ..
    next
      case False
      then have "scanPass tasks ks (p, s, False) = Some (p', s', False)"
        using Cons.prems Some by simp
      then show ?thesis using Cons.IH Some False by simp
    qed
  qed
qed

lemma scheduleLoop_final:
  "pendingOk tasks P0 \<Longrightarrow> schedInv tasks P0 p s \<Longrightarrow>
         \<exists>order p'. scheduleLoop tasks p s = Some order \<and> schedInv tasks P0 p' order
           \<and> (\<forall>k \<in> set p'. \<forall>t. map_of tasks k = Some t \<longrightarrow> \<not> depsComplete tasks p' t)"
proof (induction tasks p s rule: scheduleLoop.induct)
  case (1 tasks pending scheduled)
  note K = "1.prems"(1) and inv = "1.prems"(2)
  show ?case
  proof (cases "pending = []")
    case True
    then show ?thesis
      using inv by (subst scheduleLoop.simps) auto
  next
    case False
    have d: "distinct pending" using inv by (simp add: schedInv_def)
    obtain p' s' f' where run: "scanPass tasks pending (pending, scheduled, False) = Some (p', s', f')"
      and inv': "schedInv tasks P0 p' s'"
      using scanPass_inv [OF K inv subset_refl d, of False] by blast
    show ?thesis
    proof (cases f')
      case True
      have "\<exists>order p''. scheduleLoop tasks p' s' = Some order \<and> schedInv tasks P0 p'' order
           \<and> (\<forall>k \<in> set p''. \<forall>t. map_of tasks k = Some t \<longrightarrow> \<not> depsComplete tasks p'' t)"
        using "1.IH" [OF False run refl refl True K inv'] .
      then show ?thesis
        using False run True by (subst scheduleLoop.simps) simp
    next
      case False
      note nf = this
      have st: "p' = pending \<and> s' = scheduled
          \<and> (\<forall>k \<in> set pending. \<forall>t. map_of tasks k = Some t \<longrightarrow> \<not> depsComplete tasks pending t)"
      proof (rule scanPass_nothing_found)
        show "scanPass tasks pending (pending, scheduled, False) = Some (p', s', False)"
          using run nf by simp
      qed
      have "scheduleLoop tasks pending scheduled = Some s'"
        using \<open>pending \<noteq> []\<close> run nf by (subst scheduleLoop.simps) simp
      then show ?thesis
        using inv' st by blast
    qed
  qed
qed

lemma ordered_index:
  "ordered xs \<Longrightarrow> i < length xs \<Longrightarrow> j < length xs
     \<Longrightarrow> task_id (xs ! i) \<in> set (dependencies (xs ! j)) \<Longrightarrow> i < j"
proof (induction xs arbitrary: i j)
  case Nil
  then show ?case by simp
next
  case (Cons t ts)
  show ?case
  proof (cases j)
    case 0
    have "task_id ((t # ts) ! i) \<in> task_id ` set (t # ts)"
      using Cons.prems(2) by (intro imageI nth_mem)
    then have False
      using Cons.prems(1,4) 0 by auto
    then show ?thesis ..
  next
    case (Suc j')
    show ?thesis
    proof (cases i)
      case 0
      then show ?thesis using Suc by simp
    next
      case (Suc i')
      then show ?thesis
        using Cons.IH [of i' j'] Cons.prems \<open>j = Suc j'\<close> by simp
    qed
  qed
qed

lemma depEdges_iff:
  "(a, b) \<in> set (depEdges tasks) \<longleftrightarrow> (\<exists>t. (a, t) \<in> set tasks \<and> b \<in> set (dependencies t))"
proof (induction tasks)
  case Nil
  show ?case by (simp add: depEdges_def)
next
  case (Cons p tasks)
  have "depEdges (p # tasks) = map (\<lambda>d. (fst p, d)) (dependencies (snd p)) @ depEdges tasks"
    by (simp add: depEdges_def)
  then show ?case
    using Cons.IH by (cases p) auto
qed

lemma schedInvD:
  assumes "schedInv tasks P0 p s"
  shows "distinct p" and "distinct (map task_id s)"
    and "set p \<union> task_id ` set s = set P0"
    and "set p \<inter> task_id ` set s = {}"
    and "\<And>t. t \<in> set s \<Longrightarrow> map_of tasks (task_id t) = Some t"
    and "\<And>t. t \<in> set s \<Longrightarrow> set (dependencies t) \<inter> set p = {}"
    and "ordered s"
  using assms unfolding schedInv_def by blast+

lemma schedInv_lengths:
  assumes inv: "schedInv tasks P0 p s" and d: "distinct P0"
  shows "length s + length p = length P0"
proof -
  note I = schedInvD [OF inv]
  have "length P0 = card (set P0)" using d by (simp add: distinct_card)
  also have "\<dots> = card (set p \<union> task_id ` set s)" using I(3) by simp
  also have "\<dots> = card (set p) + card (task_id ` set s)"
    using I(4) by (intro card_Un_disjoint) simp_all
  also have "card (set p) = length p" using I(1) by (simp add: distinct_card)
  also have "card (task_id ` set s) = length s"
    using I(2) distinct_card [of "map task_id s"] by simp
  finally show ?thesis by simp
qed

lemma acyclic_finishes:
  assumes K: "pendingOk tasks P0" and inv: "schedInv tasks P0 p' order"
    and stuck: "\<forall>k \<in> set p'. \<forall>t. map_of tasks k = Some t \<longrightarrow> \<not> depsComplete tasks p' t"
    and ac: "acyclic (set (depEdges tasks))"
  shows "p' = []"
proof (rule ccontr)
  assume ne: "p' \<noteq> []"
  then obtain k0 where k0: "k0 \<in> set p'" by (cases p') auto
  have w: "wf ((set (depEdges tasks))\<inverse>)"
    using ac by (intro finite_acyclic_wf_converse) simp_all
  obtain m where m: "m \<in> set p'"
    and mn: "\<And>y. (y, m) \<in> (set (depEdges tasks))\<inverse> \<Longrightarrow> y \<notin> set p'"
    by (rule wfE_min [OF w k0]) blast
  have "m \<in> set P0" using schedInvD(3) [OF inv] m by blast
  then obtain tm where tm: "map_of tasks m = Some tm"
    using K by (auto simp: pendingOk_def)
  then have mem: "(m, tm) \<in> set tasks" by (rule map_of_SomeD)
  have "\<And>d. d \<in> set (dependencies tm) \<Longrightarrow> d \<notin> set p'"
  proof -
    fix d assume "d \<in> set (dependencies tm)"
    then have "(m, d) \<in> set (depEdges tasks)" using mem depEdges_iff by blast
    then show "d \<notin> set p'" using mn by blast
  qed
  then have "depsComplete tasks p' tm"
    by (simp add: depsComplete_def list_all_iff)
  then show False using stuck m tm by blast
qed

lemma cycle_members:
  assumes "(x, x) \<in> r\<^sup>+"
  shows "\<exists>C. x \<in> C \<and> (\<forall>y \<in> C. \<exists>z \<in> C. (y, z) \<in> r)"
proof -
  let ?C = "{y. (x, y) \<in> r\<^sup>* \<and> (y, x) \<in> r\<^sup>+}"
  have xC: "x \<in> ?C" using assms by simp
  have step: "\<exists>z \<in> ?C. (y, z) \<in> r" if y: "y \<in> ?C" for y
  proof -
    from y have xy: "(x, y) \<in> r\<^sup>*" and yx: "(y, x) \<in> r\<^sup>+" by simp_all
    from tranclD [OF yx] obtain z where yz: "(y, z) \<in> r" and zx: "(z, x) \<in> r\<^sup>*"
      by blast
    have xz: "(x, z) \<in> r\<^sup>*" using xy yz by (rule rtrancl_into_rtrancl)
    have "(z, x) \<in> r\<^sup>+"
    proof (cases "z = x")
      case True
      then show ?thesis using assms by simp
    next
      case False
      then show ?thesis using rtranclD [OF zx] by simp
    qed
    then have "z \<in> ?C" using xz by simp
    then show ?thesis using yz by (rule bexI [rotated])
  qed
  show ?thesis
  proof (intro exI conjI ballI)
    show "x \<in> ?C" by (rule xC)
  next
    fix y assume "y \<in> ?C"
    then show "\<exists>z \<in> ?C. (y, z) \<in> r" by (rule step)
  qed
qed

lemma cycle_never_scheduled:
  assumes ok: "storeOk tasks" and inv: "schedInv tasks P0 p' order"
    and C: "\<forall>y \<in> C. \<exists>z \<in> C. (y, z) \<in> set (depEdges tasks)" and CP: "C \<subseteq> set P0"
  shows "n \<le> length order \<Longrightarrow> task_id ` set (take n order) \<inter> C = {}"
proof (induction n)
  case 0
  show ?case by simp
next
  case (Suc n)
  then have n: "n < length order" and IH: "task_id ` set (take n order) \<inter> C = {}" by simp_all
  have "task_id (order ! n) \<notin> C"
  proof
    assume cC: "task_id (order ! n) \<in> C"
    let ?c = "task_id (order ! n)"
    obtain d where dC: "d \<in> C" and e: "(?c, d) \<in> set (depEdges tasks)"
      using C cC by blast
    then obtain t where t: "(?c, t) \<in> set tasks" "d \<in> set (dependencies t)"
      using depEdges_iff by blast
    have on: "order ! n \<in> set order" using n by simp
    then have stored: "map_of tasks ?c = Some (order ! n)"
      and nop: "set (dependencies (order ! n)) \<inter> set p' = {}"
      using schedInvD(5,6) [OF inv] by blast+
    have "distinct (map fst tasks)" using ok by (simp add: storeOk_def)
    then have "map_of tasks ?c = Some t" using t(1) by (simp add: map_of_is_SomeI)
    then have "t = order ! n" using stored by simp
    then have dd: "d \<in> set (dependencies (order ! n))" using t(2) by simp
    then have "d \<notin> set p'" using nop by blast
    moreover have "d \<in> set p' \<union> task_id ` set order"
      using dC CP schedInvD(3) [OF inv] by blast
    ultimately have "d \<in> task_id ` set order" by blast
    then obtain u where u: "u \<in> set order" "task_id u = d" by blast
    then obtain i where i: "i < length order" "order ! i = u"
      using in_set_conv_nth [of u order] by blast
    have o: "ordered order" using schedInvD(7) [OF inv] .
    have mem: "task_id (order ! i) \<in> set (dependencies (order ! n))"
      using i(2) u(2) dd by simp
    have "i < n" using o i(1) n mem by (rule ordered_index)
    then have "take n order ! i = u" using i(2) by simp
    moreover have "i < length (take n order)" using \<open>i < n\<close> n by simp
    ultimately have "u \<in> set (take n order)" using nth_mem by metis
    then have "d \<in> task_id ` set (take n order)" using u(2) by blast
    then show False using IH dC by blast
  qed
  then show ?case
    using IH n by (simp add: take_Suc_conv_app_nth)
qed

lemma cycle_short:
  assumes ok: "storeOk tasks" and inv: "schedInv tasks (pendingIds tasks) p' order"
    and cyc: "\<not> acyclic (set (depEdges tasks))"
  shows "length order < length tasks"
proof -
  let ?P0 = "pendingIds tasks"
  let ?pend = "\<lambda>t. task_status t = TodoPending"
  note P = storeOk_pendingIds [OF ok]
  have len: "length order + length p' = length ?P0"
    using inv P(2) by (rule schedInv_lengths)
  have le: "length ?P0 \<le> length tasks"
    using P(3) length_filter_le [of ?pend "map snd tasks"] by simp
  obtain x where xx: "(x, x) \<in> (set (depEdges tasks))\<^sup>+"
    using cyc unfolding acyclic_def by blast
  obtain C where xC: "x \<in> C" and C: "\<forall>y \<in> C. \<exists>z \<in> C. (y, z) \<in> set (depEdges tasks)"
    using cycle_members [OF xx] by blast
  show ?thesis
  proof (cases "C \<subseteq> set ?P0")
    case True
    have "task_id ` set (take (length order) order) \<inter> C = {}"
      using cycle_never_scheduled [OF ok inv C True, of "length order"] by simp
    then have "task_id ` set order \<inter> C = {}" by simp
    then have "x \<notin> task_id ` set order" using xC by blast
    moreover have "x \<in> set p' \<union> task_id ` set order"
      using True xC schedInvD(3) [OF inv] by blast
    ultimately have "x \<in> set p'" by blast
    then have "0 < length p'" by (cases p') auto
    then show ?thesis using len le by linarith
  next
    case False
    then obtain c where cC: "c \<in> C" and cn: "c \<notin> set ?P0" by blast
    obtain z where "(c, z) \<in> set (depEdges tasks)" using C cC by blast
    then obtain t where t: "(c, t) \<in> set tasks" using depEdges_iff by blast
    have id: "task_id t = c" using ok t by (auto simp: storeOk_def list_all_iff)
    have ts: "t \<in> set (map snd tasks)" using t by force
    have "\<not> ?pend t"
    proof
      assume "?pend t"
      then have "t \<in> set (filter ?pend (map snd tasks))" using ts by simp
      then have "task_id t \<in> set (map task_id (filter ?pend (map snd tasks)))"
        unfolding set_map by (rule imageI)
      then have "task_id t \<in> set ?P0" using P(1) by simp
      then show False using id cn by simp
    qed
    then have "length (filter ?pend (map snd tasks)) < length (map snd tasks)"
      using ts by (intro length_filter_less) 
    then have "length ?P0 < length tasks" using P(3) by simp
    then show ?thesis using len by simp
  qed
qed

lemma schedInv_init: "distinct P0 \<Longrightarrow> schedInv tasks P0 P0 []"
  by (simp add: schedInv_def)

text \<open>
  Claim C4 (as the code has it): on a store whose keys are the task ids,
  \<open>autoScheduleTasks\<close> returns an order of distinct stored tasks, all of them Pending,
  in which no task appears before any of its dependencies. When the dependency relation is
  acyclic the order has as many elements as there are Pending tasks (the input size when
  every task is Pending); when the store contains a dependency cycle the order is strictly
  shorter than the store.
\<close>

theorem autoSchedule_order:
  assumes ok: "storeOk (plannerTasks this)"
  shows "\<exists>order. fst (autoScheduleTasks this) = Some order
     \<and> distinct (map task_id order)
     \<and> set order \<subseteq> {t \<in> snd ` set (plannerTasks this). task_status t = TodoPending}
     \<and> (\<forall>i < length order. \<forall>j < length order.
           task_id (order ! i) \<in> set (dependencies (order ! j)) \<longrightarrow> i < j)
     \<and> (acyclic (set (depEdges (plannerTasks this))) \<longrightarrow>
           length order
             = length (filter (\<lambda>t. task_status t = TodoPending) (map snd (plannerTasks this))))
     \<and> (\<not> acyclic (set (depEdges (plannerTasks this))) \<longrightarrow>
           length order < length (plannerTasks this))"
proof -
  let ?tasks = "plannerTasks this"
  let ?P0 = "pendingIds ?tasks"
  note P = storeOk_pendingIds [OF ok]
  have K: "pendingOk ?tasks ?P0" using ok by (rule storeOk_pendingOk)
  obtain order p' where run: "scheduleLoop ?tasks ?P0 [] = Some order"
    and inv: "schedInv ?tasks ?P0 p' order"
    and stuck: "\<forall>k \<in> set p'. \<forall>t. map_of ?tasks k = Some t \<longrightarrow> \<not> depsComplete ?tasks p' t"
    using scheduleLoop_final [OF K schedInv_init [OF P(2)]] by blast
  have r: "fst (autoScheduleTasks this) = Some order"
    using run by (simp add: autoScheduleTasks_def)
  have d: "distinct (map task_id order)" using schedInvD(2) [OF inv] .
  have sub: "set order \<subseteq> {t \<in> snd ` set ?tasks. task_status t = TodoPending}"
  proof
    fix t assume t: "t \<in> set order"
    then have st: "map_of ?tasks (task_id t) = Some t" using schedInvD(5) [OF inv] by blast
    then have "(task_id t, t) \<in> set ?tasks" by (rule map_of_SomeD)
    then have a: "t \<in> snd ` set ?tasks" by force
    have "task_id t \<in> set ?P0" using schedInvD(3) [OF inv] t by blast
    then obtain t' where "map_of ?tasks (task_id t) = Some t'" "task_status t' = TodoPending"
      using K unfolding pendingOk_def by blast
    then have "task_status t = TodoPending" using st by simp
    then show "t \<in> {t \<in> snd ` set ?tasks. task_status t = TodoPending}" using a by simp
  qed
  have ord: "\<forall>i < length order. \<forall>j < length order.
           task_id (order ! i) \<in> set (dependencies (order ! j)) \<longrightarrow> i < j"
    using schedInvD(7) [OF inv] ordered_index [of order] by blast
  have len: "length order + length p' = length ?P0"
    using inv P(2) by (rule schedInv_lengths)
  have ac: "acyclic (set (depEdges ?tasks)) \<longrightarrow>
           length order = length (filter (\<lambda>t. task_status t = TodoPending) (map snd ?tasks))"
  proof
    assume "acyclic (set (depEdges ?tasks))"
    then have "p' = []" using acyclic_finishes [OF K inv stuck] by simp
    then show "length order = length (filter (\<lambda>t. task_status t = TodoPending) (map snd ?tasks))"
      using len P(3) by simp
  qed
  have cy: "\<not> acyclic (set (depEdges ?tasks)) \<longrightarrow> length order < length ?tasks"
    using cycle_short [OF ok inv] by blast
  show ?thesis
    using r d sub ord ac cy by blast
qed

lemma scanPass_stored:
  "scanPass tasks ks (p, s, f) = Some (p', s', f') \<Longrightarrow> set s \<subseteq> snd ` set tasks
     \<Longrightarrow> set s' \<subseteq> snd ` set tasks"
proof (induction ks arbitrary: p s f)
  case Nil
  then show ?case by simp
next
  case (Cons k ks)
  show ?case
  proof (cases "map_of tasks k")
    case None
    then show ?thesis using Cons.prems by simp
  next
    case (Some t)
    then have "(k, t) \<in> set tasks" by (rule map_of_SomeD)
    then have t: "t \<in> snd ` set tasks" by force
    show ?thesis
    proof (cases "depsComplete tasks p t")
      case True
      then have "scanPass tasks ks (removeAll k p, s @ [t], True) = Some (p', s', f')"
        using Cons.prems(1) Some by simp
      moreover have "set (s @ [t]) \<subseteq> snd ` set tasks" using Cons.prems(2) t by simp
      ultimately show ?thesis by (rule Cons.IH)
    next
      case False
      then have "scanPass tasks ks (p, s, f) = Some (p', s', f')"
        using Cons.prems(1) Some by simp
      then show ?thesis using Cons.prems(2) by (rule Cons.IH)
    qed
  qed
qed

lemma scheduleLoop_stored:
  "scheduleLoop tasks p s = Some order \<Longrightarrow> set s \<subseteq> snd ` set tasks
     \<Longrightarrow> set order \<subseteq> snd ` set tasks"
proof (induction tasks p s rule: scheduleLoop.induct)
  case (1 tasks pending scheduled)
  show ?case
  proof (cases "pending = []")
    case True
    then have "order = scheduled"
      using "1.prems"(1) by (subst (asm) scheduleLoop.simps) simp
    then show ?thesis using "1.prems"(2) by simp
  next
    case False
    show ?thesis
    proof (cases "scanPass tasks pending (pending, scheduled, False)")
      case None
      then show ?thesis
        using "1.prems"(1) False by (subst (asm) scheduleLoop.simps) simp
    next
      case (Some st)
      obtain p' s' f' where st: "st = (p', s', f')" by (cases st) auto
      have run: "scanPass tasks pending (pending, scheduled, False) = Some (p', s', f')"
        using Some st by simp
      have s': "set s' \<subseteq> snd ` set tasks"
        using run "1.prems"(2) by (rule scanPass_stored)
      show ?thesis
      proof (cases f')
        case True
        have "scheduleLoop tasks p' s' = Some order"
          using "1.prems"(1) False run True by (subst (asm) scheduleLoop.simps) simp
        then show ?thesis
          using "1.IH" [OF False run refl refl True _ s'] by blast
      next
        case False
        have "order = s'"
          using "1.prems"(1) \<open>pending \<noteq> []\<close> run False by (subst (asm) scheduleLoop.simps) simp
        then show ?thesis using s' by simp
      qed
    qed
  qed
qed

text \<open>
  Claim C9: \<open>autoScheduleTasks\<close> leaves the agent, and so every stored task record with its
  status, as it was; the records it returns are stored records, unchanged.
\<close>

theorem autoSchedule_readonly:
  "snd (autoScheduleTasks this) = this
   \<and> (\<forall>order. fst (autoScheduleTasks this) = Some order \<longrightarrow>
         set order \<subseteq> snd ` set (plannerTasks this))"
proof -
  have "set order \<subseteq> snd ` set (plannerTasks this)"
    if "fst (autoScheduleTasks this) = Some order" for order
  proof -
    have "scheduleLoop (plannerTasks this) (pendingIds (plannerTasks this)) [] = Some order"
      using that by (simp add: autoScheduleTasks_def)
    then show ?thesis by (rule scheduleLoop_stored) simp
  qed
  then show ?thesis by (simp add: autoScheduleTasks_def)
qed

lemma chain_run:
  "scheduleLoop chainStore (pendingIds chainStore) [] =
     Some [snd (mkTask ''a'' [] TodoPending), snd (mkTask ''b'' [''a'', ''z''] TodoPending),
           snd (mkTask ''c'' [''b''] TodoPending)]"
  by (simp add: scheduleLoop.simps pendingIds_def setFromList_def setAdd_def chainStore_def
        mkTask_def depsComplete_def depDone_def)

lemma cycle_run:
  "scheduleLoop cycleStore (pendingIds cycleStore) [] = Some [snd (mkTask ''c'' [] TodoPending)]"
  by (simp add: scheduleLoop.simps pendingIds_def setFromList_def setAdd_def cycleStore_def
        mkTask_def depsComplete_def depDone_def)

lemma chain_acyclic: "acyclic (set (depEdges chainStore))"
proof (rule acyclicI_order [where f = "\<lambda>k. if k = ''d'' then 3 else if k = ''c'' then 2 else if k = ''b'' then 1 else (0::nat)"])
  fix a b assume "(a, b) \<in> set (depEdges chainStore)"
  then have "(a, b) \<in> {(''c'', ''b''), (''b'', ''a''), (''b'', ''z''), (''d'', ''c'')}"
    by (simp add: depEdges_def chainStore_def mkTask_def)
  then show "(if b = ''d'' then 3 else if b = ''c'' then 2 else if b = ''b'' then 1 else (0::nat))
           < (if a = ''d'' then 3 else if a = ''c'' then 2 else if a = ''b'' then 1 else 0)"
    by auto
qed

lemma cycle_cyclic: "\<not> acyclic (set (depEdges cycleStore))"
proof -
  have ab: "(''a'', ''b'') \<in> set (depEdges cycleStore)"
    and ba: "(''b'', ''a'') \<in> set (depEdges cycleStore)"
    by (simp_all add: depEdges_def cycleStore_def mkTask_def)
  have "(''a'', ''a'') \<in> (set (depEdges cycleStore))\<^sup>+"
    using ab ba by (rule trancl_into_trancl [OF r_into_trancl])
  then show ?thesis unfolding acyclic_def by blast
qed

text \<open>C4 on the chain store (acyclic, three Pending tasks) and on the cycle store.\<close>

theorem autoSchedule_order_witness:
  "storeOk chainStore \<and> acyclic (set (depEdges chainStore))
   \<and> fst (autoScheduleTasks \<lparr>plannerTasks = chainStore\<rparr>) =
       Some [snd (mkTask ''a'' [] TodoPending), snd (mkTask ''b'' [''a'', ''z''] TodoPending),
             snd (mkTask ''c'' [''b''] TodoPending)]
   \<and> (\<exists>order. fst (autoScheduleTasks \<lparr>plannerTasks = chainStore\<rparr>) = Some order
         \<and> length order = 3
         \<and> (\<forall>i < length order. \<forall>j < length order.
               task_id (order ! i) \<in> set (dependencies (order ! j)) \<longrightarrow> i < j))
   \<and> storeOk cycleStore \<and> \<not> acyclic (set (depEdges cycleStore))
   \<and> (\<exists>order. fst (autoScheduleTasks \<lparr>plannerTasks = cycleStore\<rparr>) = Some order
         \<and> length order < 3)"
proof -
  have ok1: "storeOk (plannerTasks \<lparr>plannerTasks = chainStore\<rparr>)"
    by (simp add: storeOk_def chainStore_def mkTask_def)
  have ok2: "storeOk (plannerTasks \<lparr>plannerTasks = cycleStore\<rparr>)"
    by (simp add: storeOk_def cycleStore_def mkTask_def)
  have n1: "length (filter (\<lambda>t. task_status t = TodoPending) (map snd chainStore)) = 3"
    by (simp add: chainStore_def mkTask_def)
  have n2: "length cycleStore = 3"
    by (simp add: cycleStore_def)
  have r: "fst (autoScheduleTasks \<lparr>plannerTasks = chainStore\<rparr>) =
       Some [snd (mkTask ''a'' [] TodoPending), snd (mkTask ''b'' [''a'', ''z''] TodoPending),
             snd (mkTask ''c'' [''b''] TodoPending)]"
    using chain_run by (simp add: autoScheduleTasks_def)
  from autoSchedule_order [OF ok1] chain_acyclic n1
  have w1: "\<exists>order. fst (autoScheduleTasks \<lparr>plannerTasks = chainStore\<rparr>) = Some order
         \<and> length order = 3
         \<and> (\<forall>i < length order. \<forall>j < length order.
               task_id (order ! i) \<in> set (dependencies (order ! j)) \<longrightarrow> i < j)"
    by auto
  from autoSchedule_order [OF ok2] cycle_cyclic n2
  have w2: "\<exists>order. fst (autoScheduleTasks \<lparr>plannerTasks = cycleStore\<rparr>) = Some order
         \<and> length order < 3"
    by auto
  show ?thesis
    using ok1 ok2 chain_acyclic cycle_cyclic r w1 w2 by simp
qed

text \<open>
  C4 as stated equates the length of the order with the input size. Only Pending tasks are
  scheduled: a store whose single task is Completed is acyclic and yields the empty order.
\<close>

theorem autoSchedule_input_size_counterexample:
  "storeOk doneStore \<and> acyclic (set (depEdges doneStore))
   \<and> fst (autoScheduleTasks \<lparr>plannerTasks = doneStore\<rparr>) = Some []
   \<and> length ([] :: PlannerTask list) \<noteq> length doneStore"
  by (simp add: storeOk_def doneStore_def mkTask_def depEdges_def autoScheduleTasks_def
        pendingIds_def setFromList_def scheduleLoop.simps acyclic_def)

text \<open>C9 on the chain store.\<close>

theorem autoSchedule_readonly_witness:
  "snd (autoScheduleTasks \<lparr>plannerTasks = chainStore\<rparr>) = \<lparr>plannerTasks = chainStore\<rparr>
   \<and> set [snd (mkTask ''a'' [] TodoPending), snd (mkTask ''b'' [''a'', ''z''] TodoPending),
           snd (mkTask ''c'' [''b''] TodoPending)] \<subseteq> snd ` set chainStore"
proof -
  have r: "fst (autoScheduleTasks \<lparr>plannerTasks = chainStore\<rparr>) =
       Some [snd (mkTask ''a'' [] TodoPending), snd (mkTask ''b'' [''a'', ''z''] TodoPending),
             snd (mkTask ''c'' [''b''] TodoPending)]"
    using chain_run by (simp add: autoScheduleTasks_def)
  show ?thesis
    using autoSchedule_readonly [of "\<lparr>plannerTasks = chainStore\<rparr>"] r by simp
qed

section \<open>Properties of requests and of the workflow engine\<close>

lemma onEvent_settled:
  "rq_promise st \<noteq> PromisePending \<Longrightarrow> rq_promise (onEvent ev st) = rq_promise st"
  by (auto simp: onEvent_def handler_def resolve_def reject_def Let_def
           split: LoopEvent.splits option.splits sum.splits if_splits)

lemma runEvents_settled:
  "rq_promise st \<noteq> PromisePending \<Longrightarrow> rq_promise (runEvents evs st) = rq_promise st"
  unfolding runEvents_def
  by (induction evs arbitrary: st) (simp_all add: onEvent_settled)

text \<open>
  Claim C2, evaluated: a request to an agent that never answers is rejected by the timeout
  and its handler is still registered afterwards, whereas a response or an error envelope
  settles the promise and deregisters the handler.
\<close>

theorem sendRequest_timeout_keeps_listener:
  "rq_promise (runEvents [TimerFires] (sendRequest ''me'' ''r1'' ''ghost'' JNull))
     = PromiseRejected ''Request to ghost timed out''
   \<and> rq_listener (runEvents [TimerFires] (sendRequest ''me'' ''r1'' ''ghost'' JNull)) = True
   \<and> rq_promise (runEvents [Deliver ghostResponse] (sendRequest ''me'' ''r1'' ''ghost'' JNull))
     = PromiseResolved (JNum 7)
   \<and> rq_listener (runEvents [Deliver ghostResponse] (sendRequest ''me'' ''r1'' ''ghost'' JNull)) = False
   \<and> rq_promise (runEvents [Deliver ghostError] (sendRequest ''me'' ''r1'' ''ghost'' JNull))
     = PromiseRejected ''boom''
   \<and> rq_listener (runEvents [Deliver ghostError] (sendRequest ''me'' ''r1'' ''ghost'' JNull)) = False"
  by (simp add: runEvents_def onEvent_def sendRequest_def handler_def resolve_def reject_def
        ghostResponse_def ghostError_def getProp_def Let_def)

lemma runLoop_not_running:
  "exec_status e \<noteq> WfRunning \<Longrightarrow> runLoop (Suc fuel) depth rt wfs ss cur e sy w = Some (e, sy, w)"
  by simp

lemma afterStep_status:
  "exec_status e \<noteq> WfRunning \<Longrightarrow> exec_status (fst (afterStep rt step outcome e sy)) \<noteq> WfRunning"
  by (auto simp: afterStep_def Let_def split: sum.splits StepNext.splits)

text \<open>
  Claim C8: \<open>cancelExecution(id)\<close> on a Running execution returns true, marks the record
  Failed, appends \<open>Cancelled by user\<close> to its errors, sets its end time and drops it from
  the running set; the step loop then executes no further step, whether it meets the
  record at its test or after a step that was in flight. On a missing execution or one in
  any other status it returns false and changes nothing.
\<close>

theorem cancelExecution_running_only:
  "(map_of (executions this) executionId = Some e \<and> exec_status e = WfRunning \<longrightarrow>
      fst (cancelExecution now executionId this sy) = True
      \<and> map_of (executions (fst (snd (cancelExecution now executionId this sy)))) executionId
          = Some (e\<lparr>exec_status := WfFailed,
                    exec_errors := exec_errors e @ [''Cancelled by user''],
                    endTime := Some now\<rparr>)
      \<and> executionId \<notin> set (runningExecutions (fst (snd (cancelExecution now executionId this sy))))
      \<and> runLoop (Suc fuel) depth rt wfs ss cur
           (e\<lparr>exec_status := WfFailed, exec_errors := exec_errors e @ [''Cancelled by user''],
              endTime := Some now\<rparr>) sy1 w
          = Some (e\<lparr>exec_status := WfFailed, exec_errors := exec_errors e @ [''Cancelled by user''],
                    endTime := Some now\<rparr>, sy1, w)
      \<and> exec_status (fst (afterStep rt step outcome
           (e\<lparr>exec_status := WfFailed, exec_errors := exec_errors e @ [''Cancelled by user''],
              endTime := Some now, exec_context := ctx\<rparr>) sy1)) \<noteq> WfRunning)
   \<and> (map_of (executions this) executionId = None
        \<or> (map_of (executions this) executionId = Some e \<and> exec_status e \<noteq> WfRunning) \<longrightarrow>
      cancelExecution now executionId this sy = (False, this, sy))"
proof -
  have a: "exec_status (fst (afterStep rt step outcome
           (e\<lparr>exec_status := WfFailed, exec_errors := exec_errors e @ [''Cancelled by user''],
              endTime := Some now, exec_context := ctx\<rparr>) sy1)) \<noteq> WfRunning"
    by (rule afterStep_status) simp
  show ?thesis
    using a by (auto simp: cancelExecution_def map_of_mapSet)
qed

lemma stepMapGet3:
  assumes "distinct [step_id A, step_id B, step_id C]"
  shows "stepMapGet [A, B, C] (step_id A) = Some A"
    and "stepMapGet [A, B, C] (step_id B) = Some B"
    and "stepMapGet [A, B, C] (step_id C) = Some C"
  using assms by (auto simp: stepMapGet_def)

lemma afterStep_value_next:
  "step_next step = NextId n \<Longrightarrow> n \<noteq> [] \<Longrightarrow>
   afterStep rt step (Inr v) e sy =
     (e\<lparr>exec_results := mapSet (step_id step) v (exec_results e)\<rparr>, sy, Some (Some n))"
  by (simp add: afterStep_def truthyNext_def)

lemma afterStep_value_last:
  "step_next step = NextAbsent \<Longrightarrow>
   afterStep rt step (Inr v) e sy =
     (e\<lparr>exec_results := mapSet (step_id step) v (exec_results e)\<rparr>, sy, None)"
  by (simp add: afterStep_def truthyNext_def)

lemma afterStep_error_next:
  "step_next step = NextId n \<Longrightarrow> n \<noteq> [] \<Longrightarrow>
   afterStep rt step (Inl msg) e sy =
     (e\<lparr>exec_errors := exec_errors e @ [''Step '' @ step_name step @ '': '' @ msg]\<rparr>,
      logger_error plannerName (''Step failed: '' @ step_name step) sy, Some (Some n))"
  by (simp add: afterStep_def)

text \<open>
  Claim C5: for a workflow of three steps \<open>A\<close>, \<open>B\<close>, \<open>C\<close> with distinct, non-empty
  ids, where \<open>A\<close> leads to \<open>B\<close>, \<open>B\<close> to \<open>C\<close> and \<open>C\<close> is terminal, a new execution
  in which \<open>A\<close> and \<open>C\<close> succeed and \<open>B\<close> fails ends (three loop iterations suffice)
  with status Completed, with the single error entry of \<open>B\<close>, and with results for \<open>A\<close>
  and \<open>C\<close> and none for \<open>B\<close>.
\<close>

theorem fail_forward:
  assumes ids: "step_id A \<noteq> []" "step_id B \<noteq> []" "step_id C \<noteq> []"
      "distinct [step_id A, step_id B, step_id C]"
    and nexts: "step_next A = NextId (step_id B)" "step_next B = NextId (step_id C)"
      "step_next C = NextAbsent"
    and wfl: "steps workflow = [A, B, C]"
    and e0: "e0 = newExecution newId t0 workflow ctx0"
    and runA: "executeStep depth rt wfs A (e0\<lparr>currentStep := Some (step_id A)\<rparr>)
                 (logger_debug plannerName (''Executing step: '' @ step_name A) sy0) w0
               = Some (Inr vA, ctxA, syA, wA)"
    and runB: "executeStep depth rt wfs B
                 (e0\<lparr>currentStep := Some (step_id B), exec_context := ctxA,
                     exec_results := [(step_id A, vA)]\<rparr>)
                 (logger_debug plannerName (''Executing step: '' @ step_name B) syA) wA
               = Some (Inl msg, ctxB, syB, wB)"
    and runC: "executeStep depth rt wfs C
                 (e0\<lparr>currentStep := Some (step_id C), exec_context := ctxB,
                     exec_results := [(step_id A, vA)],
                     exec_errors := [''Step '' @ step_name B @ '': '' @ msg]\<rparr>)
                 (logger_debug plannerName (''Executing step: '' @ step_name C)
                    (logger_error plannerName (''Step failed: '' @ step_name B) syB)) wB
               = Some (Inr vC, ctxC, syC, wC)"
  shows "\<exists>ex running' sy'.
           runWorkflow (Suc (Suc (Suc fuel))) depth rt now wfs running workflow e0 sy0 w0
             = Some (ex, running', sy', wC)
           \<and> exec_status ex = WfCompleted
           \<and> exec_errors ex = [''Step '' @ step_name B @ '': '' @ msg]
           \<and> exec_results ex = [(step_id A, vA), (step_id C, vC)]"
proof -
  note sm = stepMapGet3 [OF ids(4)]
  have first: "firstStepId workflow = Some (step_id A)"
    by (simp add: firstStepId_def wfl)
  have st0: "exec_status e0 = WfRunning" "exec_results e0 = []" "exec_errors e0 = []"
    by (simp_all add: e0 newExecution_def)
  have l1: "\<exists>ex. runLoop (Suc (Suc (Suc fuel))) depth rt wfs [A, B, C] (Some (step_id A)) e0 sy0 w0
            = Some (ex, syC, wC)
            \<and> exec_status ex = WfRunning
            \<and> exec_errors ex = [''Step '' @ step_name B @ '': '' @ msg]
            \<and> exec_results ex = [(step_id A, vA), (step_id C, vC)]"
    using ids runA runB runC
    by (simp add: e0 newExecution_def truthyId_def sm Let_def
          afterStep_value_next [OF nexts(1) ids(2)]
          afterStep_error_next [OF nexts(2) ids(3)]
          afterStep_value_last [OF nexts(3)])
  show ?thesis
    using l1 by (auto simp: runWorkflow_def wfl first Let_def)
qed

text \<open>C5 on the example workflow, whose step \<open>B\<close> asks for the failing tool.\<close>

theorem fail_forward_witness:
  "\<exists>ex running' sy'.
     runWorkflow (Suc (Suc (Suc 0))) (Suc 0) demoRuntime 9 [] [''e1''] abcWorkflow
       (newExecution ''e1'' 0 abcWorkflow []) sys0 ()
       = Some (ex, running', sy', ())
     \<and> exec_status ex = WfCompleted
     \<and> exec_errors ex = [''Step '' @ step_name (mkStep ''B'' ToolStep [(''toolId'', JStr ''failing-tool'')] (NextId ''C'')) @ '': '' @ ''tool failed'']
     \<and> exec_results ex =
         [(step_id (mkStep ''A'' AgentStep [(''task'', JStr ''a'')] (NextId ''B'')),
           JObj [(''task'', JStr ''a''), (''context'', JContextRef)]),
          (step_id (mkStep ''C'' AgentStep [(''task'', JStr ''c'')] NextAbsent),
           JObj [(''task'', JStr ''c''), (''context'', JContextRef)])]"
proof (rule fail_forward [where ?t0.0 = 0 and ?ctx0.0 = "[]" and newId = "''e1''"
        and ctxA = "[]" and ctxB = "[]" and ctxC = "[]" and wA = "()" and wB = "()"
        and ?sy0.0 = sys0
        and syA = "logger_debug plannerName ''Agent step: a''
                     (logger_debug plannerName ''Executing step: A'' sys0)"
        and syB = "logger_debug plannerName ''Executing step: B''
                     (logger_debug plannerName ''Agent step: a''
                        (logger_debug plannerName ''Executing step: A'' sys0))"
        and syC = "logger_debug plannerName ''Agent step: c''
                     (logger_debug plannerName ''Executing step: C''
                        (logger_error plannerName ''Step failed: B''
                           (logger_debug plannerName ''Executing step: B''
                              (logger_debug plannerName ''Agent step: a''
                                 (logger_debug plannerName ''Executing step: A'' sys0)))))"])
  show "step_id (mkStep ''A'' AgentStep [(''task'', JStr ''a'')] (NextId ''B'')) \<noteq> []"
    and "step_id (mkStep ''B'' ToolStep [(''toolId'', JStr ''failing-tool'')] (NextId ''C'')) \<noteq> []"
    and "step_id (mkStep ''C'' AgentStep [(''task'', JStr ''c'')] NextAbsent) \<noteq> []"
    and "distinct [step_id (mkStep ''A'' AgentStep [(''task'', JStr ''a'')] (NextId ''B'')),
                   step_id (mkStep ''B'' ToolStep [(''toolId'', JStr ''failing-tool'')] (NextId ''C'')),
                   step_id (mkStep ''C'' AgentStep [(''task'', JStr ''c'')] NextAbsent)]"
    and "step_next (mkStep ''A'' AgentStep [(''task'', JStr ''a'')] (NextId ''B''))
           = NextId (step_id (mkStep ''B'' ToolStep [(''toolId'', JStr ''failing-tool'')] (NextId ''C'')))"
    and "step_next (mkStep ''B'' ToolStep [(''toolId'', JStr ''failing-tool'')] (NextId ''C''))
           = NextId (step_id (mkStep ''C'' AgentStep [(''task'', JStr ''c'')] NextAbsent))"
    and "step_next (mkStep ''C'' AgentStep [(''task'', JStr ''c'')] NextAbsent) = NextAbsent"
    and "steps abcWorkflow =
           [mkStep ''A'' AgentStep [(''task'', JStr ''a'')] (NextId ''B''),
            mkStep ''B'' ToolStep [(''toolId'', JStr ''failing-tool'')] (NextId ''C''),
            mkStep ''C'' AgentStep [(''task'', JStr ''c'')] NextAbsent]"
    by (simp_all add: mkStep_def abcWorkflow_def)
  show "newExecution ''e1'' 0 abcWorkflow [] = newExecution ''e1'' 0 abcWorkflow []" ..
qed (simp_all add: mkStep_def abcWorkflow_def newExecution_def demoRuntime_def
       executeAgentStep_def executeToolStep_def cfg_def getProp_def)

text \<open>
  Claim C1, evaluated on the built-in workflow \<open>git-operations\<close> with an empty
  \<open>context.status\<close>: the condition step's expression \<open>context.status.length > 0\<close> is
  false (the step's own result, \<open>results.check\<close>), yet the run goes on to \<open>diff\<close>, the
  first id of the pair, because the branch evaluates \<open>step.condition || 'true'\<close> and the
  expression is stored in \<open>step.config.condition\<close>.
\<close>

theorem branch_ignores_config_condition:
  "map_option (\<lambda>r. (exec_status (fst r), map fst (exec_results (fst r)),
                       map_of (exec_results (fst r)) ''check''))
     (runWorkflow (Suc (Suc (Suc (Suc 0)))) (Suc 0) demoRuntime 9 [] [''e1''] gitOperations
        (newExecution ''e1'' 0 gitOperations [(''status'', JStr [])]) sys0 ())
   = Some (WfCompleted, [''status'', ''check'', ''diff'', ''done''], Some (JBool False))"
  by (simp add: runWorkflow_def gitOperations_def newExecution_def demoRuntime_def evalBody_def
        firstStepId_def truthyId_def stepMapGet_def afterStep_def truthyNext_def nthOpt_def
        evaluateCondition_def executeToolStep_def executeFunctionStep_def cfg_def getProp_def
        Let_def)

text \<open>C8 on a running, a completed and a missing execution.\<close>

theorem cancelExecution_running_only_witness:
  "fst (cancelExecution 5 ''e1'' demoPlanner sys0) = True
   \<and> map_of (executions (fst (snd (cancelExecution 5 ''e1'' demoPlanner sys0)))) ''e1''
       = Some ((newExecution ''e1'' 0 abcWorkflow [])
                 \<lparr>exec_status := WfFailed, exec_errors := [''Cancelled by user''],
                  endTime := Some 5\<rparr>)
   \<and> runLoop (Suc 0) (Suc 0) demoRuntime [] (steps abcWorkflow) (Some ''A'')
         ((newExecution ''e1'' 0 abcWorkflow [])
            \<lparr>exec_status := WfFailed, exec_errors := [''Cancelled by user''],
             endTime := Some 5\<rparr>) sys0 ()
       = Some ((newExecution ''e1'' 0 abcWorkflow [])
                 \<lparr>exec_status := WfFailed, exec_errors := [''Cancelled by user''],
                  endTime := Some 5\<rparr>, sys0, ())
   \<and> cancelExecution 5 ''e2'' demoPlanner sys0 = (False, demoPlanner, sys0)
   \<and> cancelExecution 5 ''zz'' demoPlanner sys0 = (False, demoPlanner, sys0)"
proof -
  have h1: "map_of (executions demoPlanner) ''e1'' = Some (newExecution ''e1'' 0 abcWorkflow [])
            \<and> exec_status (newExecution ''e1'' 0 abcWorkflow []) = WfRunning"
    by (simp add: demoPlanner_def newExecution_def)
  have h2: "map_of (executions demoPlanner) ''e2''
              = Some ((newExecution ''e2'' 0 abcWorkflow [])\<lparr>exec_status := WfCompleted\<rparr>)
            \<and> exec_status ((newExecution ''e2'' 0 abcWorkflow [])\<lparr>exec_status := WfCompleted\<rparr>)
                \<noteq> WfRunning"
    by (simp add: demoPlanner_def)
  have h3: "map_of (executions demoPlanner) ''zz'' = None"
    by (simp add: demoPlanner_def)
  have e: "exec_errors (newExecution ''e1'' 0 abcWorkflow []) = []"
    by (simp add: newExecution_def)
  show ?thesis
    using cancelExecution_running_only
            [of demoPlanner "''e1''" "newExecution ''e1'' 0 abcWorkflow []" 5 sys0 0 "Suc 0"
                demoRuntime "[]" "steps abcWorkflow" "Some ''A''" sys0 "()"]
          cancelExecution_running_only
            [of demoPlanner "''e2''"
                "(newExecution ''e2'' 0 abcWorkflow [])\<lparr>exec_status := WfCompleted\<rparr>" 5 sys0]
          cancelExecution_running_only [of demoPlanner "''zz''" _ 5 sys0]
          h1 h2 h3
    by (simp add: e)
qed

end
